theory Spec2Isabelle
  imports Main "HOL-Library.Multiset"
begin

section \<open>Requests, responses and failures\<close>

text \<open>
  Of an \<open>AxiosResponse<T>\<close> the code reads \<open>status\<close> and \<open>data\<close>, and it passes the whole
  object to \<open>JSON.stringify\<close> when the status is not 200 or 201. \<open>JSON.stringify\<close> throws a
  \<open>TypeError\<close> on an object that holds a circular reference, as a response of axios in Node
  does through its \<open>request\<close>; it returns a string on a plain object.

  A promise returned by \<open>requestFn\<close> settles in one of four ways the code can tell apart:
  \<^item> \<open>Resolved res\<close>: it resolves with a response on which \<open>JSON.stringify\<close> returns a string;
  \<^item> \<open>Unserialisable res\<close>: it resolves with a response on which \<open>JSON.stringify\<close> throws;
  \<^item> \<open>Rejected e\<close>: it rejects with a reason \<open>e\<close> that is not nullish; the code reads
    \<open>e?.response?.status\<close> (absent on a network-layer failure) and, in the timeout wrapper,
    \<open>axios.isCancel(e)\<close>;
  \<^item> \<open>RejectedNullish\<close>: it rejects with \<open>undefined\<close> or \<open>null\<close> (the \<open>catch\<close> clause takes
    \<open>e: any\<close>), for which \<open>e?.response?.status\<close> is \<open>undefined\<close>.

  A call of \<open>requestFn\<close> that throws is a rejection. A promise that resolves with something
  that is not a response is outside the declared type of \<open>requestFn\<close> and is left out.
\<close>

record 'a response =
  status :: int
  data :: 'a

record 'e rejection =
  is_cancel :: bool
  response_status :: "int option"
  reason :: 'e

datatype ('a, 'e) attempt =
    Resolved "'a response"
  | Unserialisable "'a response"
  | Rejected "'e rejection"
  | RejectedNullish

text \<open>
  The errors \<open>sendRequestWithRetry\<close> and \<open>sendRequestWithTimeout\<close> throw: the reason of a
  rejected attempt rethrown as it is, \<open>new Error(`HTTP Request failed: ...`)\<close> built from a
  response, the \<open>TypeError\<close> of \<open>JSON.stringify\<close> thrown while that error was being built,
  \<open>new Error(`RequestWithRetry got bad tryLimits: ...`)\<close>, and \<open>new Error("Request timeout")\<close>.
\<close>

datatype ('a, 'e) error =
    Thrown "'e rejection"
  | HttpRequestFailed "'a response"
  | JsonTypeError
  | BadTryLimits int
  | RequestTimeout

text \<open>\<open>axios.isCancel(err)\<close>: true only for a cancellation object; the Error objects the
  code builds itself are not cancellations.\<close>

fun isCancel :: "('a, 'e) error \<Rightarrow> bool" where
  "isCancel (Thrown e) = is_cancel e"
| "isCancel (HttpRequestFailed res) = False"
| "isCancel JsonTypeError = False"
| "isCancel (BadTryLimits n) = False"
| "isCancel RequestTimeout = False"

section \<open>sendRequestWithRetry\<close>

text \<open>
  \<open>canTry = (status) => !status || (status >= 500 && status < 600)\<close>. The status is
  \<open>number | undefined\<close>; \<open>!status\<close> holds for \<open>undefined\<close> and for the number 0.
\<close>

fun canTry :: "int option \<Rightarrow> bool" where
  "canTry None = True"
| "canTry (Some s) = (s = 0 \<or> (500 \<le> s \<and> s < 600))"

text \<open>
  The loop \<open>for (let i = 0; i < tryLimits && canTry(status); i++)\<close> with its variables
  \<open>i\<close>, \<open>status\<close> (\<open>None\<close>: \<open>undefined\<close>) and \<open>error\<close> (\<open>None\<close>: nullish, that is not
  assigned yet or assigned \<open>undefined\<close> or \<open>null\<close>). \<open>requestFn\<close> is a call into the
  environment: it takes the environment's state and returns how the awaited promise
  settled, with the new state.

  In the \<open>try\<close> block a response with status 200 or 201 is returned. For any other response
  \<open>error = new Error(`HTTP Request failed: ${JSON.stringify(res)}`)\<close> comes before
  \<open>status = res.status\<close>: when \<open>JSON.stringify\<close> throws, neither assignment is made and the
  \<open>catch\<close> block runs with the \<open>TypeError\<close>, as it does with the reason of a rejection:
  \<open>error = e; status = e?.response?.status\<close>. After the loop,
  \<open>error ??= new Error(...bad tryLimits...)\<close> and \<open>throw error\<close>.
\<close>

function retry_loop ::
  "('s \<Rightarrow> ('a, 'e) attempt \<times> 's) \<Rightarrow> int \<Rightarrow> int \<Rightarrow> int option \<Rightarrow> ('a, 'e) error option \<Rightarrow> 's
    \<Rightarrow> (('a, 'e) error + 'a response) \<times> 's" where
  "retry_loop requestFn tryLimits i last_status last_error s =
     (if i < tryLimits \<and> canTry last_status then
        (case requestFn s of
           (Resolved res, s') \<Rightarrow>
             if status res = 200 \<or> status res = 201 then (Inr res, s')
             else retry_loop requestFn tryLimits (i + 1) (Some (status res))
                    (Some (HttpRequestFailed res)) s'
         | (Unserialisable res, s') \<Rightarrow>
             if status res = 200 \<or> status res = 201 then (Inr res, s')
             else retry_loop requestFn tryLimits (i + 1) None (Some JsonTypeError) s'
         | (Rejected e, s') \<Rightarrow>
             retry_loop requestFn tryLimits (i + 1) (response_status e) (Some (Thrown e)) s'
         | (RejectedNullish, s') \<Rightarrow>
             retry_loop requestFn tryLimits (i + 1) None None s')
      else (Inl (case last_error of None \<Rightarrow> BadTryLimits tryLimits | Some err \<Rightarrow> err), s))"
  by pat_completeness auto
termination
  by (relation "measure (\<lambda>(requestFn, tryLimits, i, last_status, last_error, s). nat (tryLimits - i))")
    auto

definition sendRequestWithRetry ::
  "('s \<Rightarrow> ('a, 'e) attempt \<times> 's) \<Rightarrow> int \<Rightarrow> 's \<Rightarrow> (('a, 'e) error + 'a response) \<times> 's" where
  "sendRequestWithRetry requestFn tryLimits s = retry_loop requestFn tryLimits 0 None None s"

text \<open>
  A scripted environment: the \<open>n\<close>-th call of \<open>requestFn\<close> (counted from 0) settles as
  \<open>script n\<close>; the state is the number of calls made so far.
\<close>

definition scripted :: "(nat \<Rightarrow> ('a, 'e) attempt) \<Rightarrow> nat \<Rightarrow> ('a, 'e) attempt \<times> nat" where
  "scripted script n = (script n, Suc n)"

text \<open>
  For an attempt after which the loop goes on: what it leaves in \<open>status\<close> and in \<open>error\<close>.
  \<open>is_success\<close>: the attempt's response is returned. \<open>returned\<close>: that response.
\<close>

fun status_of :: "('a, 'e) attempt \<Rightarrow> int option" where
  "status_of (Resolved res) = Some (status res)"
| "status_of (Unserialisable res) = None"
| "status_of (Rejected e) = response_status e"
| "status_of RejectedNullish = None"

fun error_of :: "('a, 'e) attempt \<Rightarrow> ('a, 'e) error option" where
  "error_of (Resolved res) = Some (HttpRequestFailed res)"
| "error_of (Unserialisable res) = Some JsonTypeError"
| "error_of (Rejected e) = Some (Thrown e)"
| "error_of RejectedNullish = None"

fun is_success :: "('a, 'e) attempt \<Rightarrow> bool" where
  "is_success (Resolved res) = (status res = 200 \<or> status res = 201)"
| "is_success (Unserialisable res) = (status res = 200 \<or> status res = 201)"
| "is_success (Rejected e) = False"
| "is_success RejectedNullish = False"

fun returned :: "('a, 'e) attempt \<Rightarrow> 'a response option" where
  "returned (Resolved res) = Some res"
| "returned (Unserialisable res) = Some res"
| "returned (Rejected e) = None"
| "returned RejectedNullish = None"

text \<open>A script given by its first outcomes and the outcome of every later call.\<close>

definition script_of :: "('a, 'e) attempt list \<Rightarrow> ('a, 'e) attempt \<Rightarrow> nat \<Rightarrow> ('a, 'e) attempt" where
  "script_of first later n = (if n < length first then first ! n else later)"

definition respond :: "int \<Rightarrow> (unit, unit) attempt" where
  "respond s = Resolved \<lparr>status = s, data = ()\<rparr>"

definition reject_with :: "int option \<Rightarrow> (unit, unit) attempt" where
  "reject_with s = Rejected \<lparr>is_cancel = False, response_status = s, reason = ()\<rparr>"


definition respond_unserialisable :: "int \<Rightarrow> (unit, unit) attempt" where
  "respond_unserialisable s = Unserialisable \<lparr>status = s, data = ()\<rparr>"

definition reject_nullish :: "(unit, unit) attempt" where
  "reject_nullish = RejectedNullish"
section \<open>sendRequestWithTimeout\<close>

text \<open>
  The wrapper creates one cancellation source and one timer, both local to the call.
  Time is counted in whole milliseconds. The world of one call: the clock, the state of
  the timer returned by \<open>setTimeout\<close>, whether \<open>source.cancel()\<close> has run, a log of the
  calls of \<open>requestFn\<close> so far (for each call the token it was handed, the time of the
  call and what the call could observe of the token), a supply of fresh token identities,
  and the rest of the environment.
\<close>

datatype timer_state =
    Armed nat
  | Cleared
  | Fired

record 'x world =
  now :: nat
  timer :: timer_state
  cancel_requested :: bool
  calls :: "(nat \<times> nat \<times> nat option) list"
  fresh :: nat
  env :: 'x

text \<open>\<open>setTimeout(() => source.cancel(), timeoutInMs)\<close>: due \<open>timeoutInMs\<close> from now.\<close>

definition setTimeout :: "nat \<Rightarrow> 'x world \<Rightarrow> 'x world" where
  "setTimeout timeoutInMs w = w\<lparr>timer := Armed (now w + timeoutInMs)\<rparr>"

text \<open>\<open>clearTimeout(timeout)\<close>: disarms a pending timer, and does nothing to one that has
  fired.\<close>

definition clearTimeout :: "'x world \<Rightarrow> 'x world" where
  "clearTimeout w = (case timer w of Armed deadline \<Rightarrow> w\<lparr>timer := Cleared\<rparr> | _ \<Rightarrow> w)"

text \<open>
  The passing of \<open>d\<close> milliseconds while the caller is suspended: a timer that falls due
  runs its callback \<open>source.cancel()\<close>.
\<close>

definition elapse :: "nat \<Rightarrow> 'x world \<Rightarrow> 'x world" where
  "elapse d w =
     (case timer w of
        Armed deadline \<Rightarrow>
          if deadline \<le> now w + d
          then w\<lparr>now := now w + d, timer := Fired, cancel_requested := True\<rparr>
          else w\<lparr>now := now w + d\<rparr>
      | _ \<Rightarrow> w\<lparr>now := now w + d\<rparr>)"

text \<open>
  What an operation can observe of the token it was given while it is pending: \<open>Some t\<close>
  when cancellation is requested \<open>t\<close> milliseconds after the attempt starts (0: it has been
  requested already), \<open>None\<close> when it is not going to be requested.
\<close>

definition cancel_view :: "'x world \<Rightarrow> nat option" where
  "cancel_view w =
     (if cancel_requested w then Some 0
      else case timer w of Armed deadline \<Rightarrow> Some (deadline - now w) | _ \<Rightarrow> None)"

text \<open>
  One await of \<open>requestFn(source.token)\<close>. The caller's \<open>requestFn\<close> is given the token and
  what it can observe of it; it answers with the time the attempt takes and how it
  settles. Cancellation is cooperative: the answer is the operation's own.
\<close>

type_synonym ('a, 'e, 'x) cancellable_request =
  "nat \<Rightarrow> nat option \<Rightarrow> 'x \<Rightarrow> (nat \<times> ('a, 'e) attempt) \<times> 'x"

definition request_with_token ::
  "('a, 'e, 'x) cancellable_request \<Rightarrow> nat \<Rightarrow> 'x world \<Rightarrow> ('a, 'e) attempt \<times> 'x world" where
  "request_with_token requestFn token w =
     (case requestFn token (cancel_view w) (env w) of
        ((d, outcome), x') \<Rightarrow>
          (outcome, elapse d (w\<lparr>calls := calls w @ [(token, now w, cancel_view w)], env := x'\<rparr>)))"

text \<open>\<open>axios.CancelToken.source()\<close>: a new token, on which no cancellation is requested.\<close>

definition new_source :: "'x world \<Rightarrow> nat \<times> 'x world" where
  "new_source w = (fresh w, w\<lparr>fresh := Suc (fresh w), cancel_requested := False\<rparr>)"

text \<open>
  \<open>sendRequestWithTimeout(requestFn, timeoutInMs, tryLimits = 1)\<close>: \<open>None\<close> for an omitted
  \<open>tryLimits\<close>. The \<open>try\<close> block clears the timer after the awaited call returned; the
  \<open>catch\<close> block turns a cancellation into \<open>new Error("Request timeout")\<close> and rethrows
  anything else.
\<close>

definition sendRequestWithTimeout ::
  "('a, 'e, 'x) cancellable_request \<Rightarrow> nat \<Rightarrow> int option \<Rightarrow> 'x world
    \<Rightarrow> (('a, 'e) error + 'a response) \<times> 'x world" where
  "sendRequestWithTimeout requestFn timeoutInMs tryLimits w =
     (case new_source w of
        (token, w1) \<Rightarrow>
          (case sendRequestWithRetry (request_with_token requestFn token)
                  (case tryLimits of None \<Rightarrow> 1 | Some n \<Rightarrow> n) (setTimeout timeoutInMs w1) of
             (Inr res, w2) \<Rightarrow> (Inr res, clearTimeout w2)
           | (Inl err, w2) \<Rightarrow> (if isCancel err then Inl RequestTimeout else Inl err, w2)))"

text \<open>
  Environments for the examples: every attempt takes \<open>d\<close> milliseconds and settles as
  \<open>outcome\<close>; the cooperative variant rejects with a cancellation as soon as it observes
  one before completing.
\<close>

definition cancellation :: "(unit, unit) attempt" where
  "cancellation = Rejected \<lparr>is_cancel = True, response_status = None, reason = ()\<rparr>"

definition steady :: "nat \<Rightarrow> (unit, unit) attempt \<Rightarrow> (unit, unit, unit) cancellable_request" where
  "steady d outcome token view x = ((d, outcome), x)"

definition cooperative :: "nat \<Rightarrow> (unit, unit) attempt \<Rightarrow> (unit, unit, unit) cancellable_request" where
  "cooperative d outcome token view x =
     (case view of
        None \<Rightarrow> ((d, outcome), x)
      | Some t \<Rightarrow> if t < d then ((t, cancellation), x) else ((d, outcome), x))"

definition world0 :: "unit world" where
  "world0 = \<lparr>now = 0, timer = Cleared, cancel_requested = False, calls = [], fresh = 0, env = ()\<rparr>"

text \<open>
  What holds of the world throughout one call of \<open>sendRequestWithTimeout\<close> whose timer is
  due at \<open>D\<close> and whose token is \<open>tok\<close>: the timer is still armed for \<open>D\<close>, or it has fired
  at or after \<open>D\<close> and requested cancellation; and every call logged since \<open>base\<close> was
  handed \<open>tok\<close> and could observe the one deadline \<open>D\<close>.
\<close>

definition timeout_inv :: "nat \<Rightarrow> nat \<Rightarrow> nat \<Rightarrow> (nat \<times> nat \<times> nat option) list \<Rightarrow> 'x world \<Rightarrow> bool" where
  "timeout_inv D tok F base w \<longleftrightarrow>
     fresh w = F
     \<and> ((timer w = Armed D \<and> \<not> cancel_requested w \<and> now w \<le> D) \<or> (timer w = Fired \<and> cancel_requested w \<and> D \<le> now w))
     \<and> (\<exists>new. calls w = base @ new \<and> (\<forall>c \<in> set new. fst c = tok \<and> snd (snd c) = Some (D - fst (snd c))))"

section \<open>Paths on a POSIX host\<close>

text \<open>
  The code calls Node's \<open>path\<close> module and branches on \<open>path.sep\<close>. The model is of a POSIX
  host, where \<open>path.sep\<close> is \<open>"/"\<close>; \<open>basename\<close> and \<open>dirname\<close> below compute what
  \<open>path.posix.basename\<close> (without a suffix argument) and \<open>path.posix.dirname\<close> return, and
  \<open>split_on\<close> is JavaScript's \<open>String.prototype.split\<close> with a one-character separator
  (the empty string splits into one empty segment).
\<close>

fun split_on :: "char \<Rightarrow> string \<Rightarrow> string list" where
  "split_on sep [] = [[]]"
| "split_on sep (c # cs) =
     (let r = split_on sep cs in if c = sep then [] # r else (c # hd r) # tl r)"

definition strip_trailing_slashes :: "string \<Rightarrow> string" where
  "strip_trailing_slashes p = rev (dropWhile (\<lambda>c. c = CHR ''/'') (rev p))"

definition basename :: "string \<Rightarrow> string" where
  "basename p = rev (takeWhile (\<lambda>c. c \<noteq> CHR ''/'') (rev (strip_trailing_slashes p)))"

definition dirname :: "string \<Rightarrow> string" where
  "dirname p =
     (if p = [] then ''.''
      else
        let hasRoot = (hd p = CHR ''/'');
            upto_slash = dropWhile (\<lambda>c. c \<noteq> CHR ''/'') (rev (strip_trailing_slashes (tl p)));
            cut = length upto_slash
        in if cut = 0 then (if hasRoot then ''/'' else ''.'')
           else if hasRoot \<and> cut = 1 then ''//''
           else take cut p)"

section \<open>The file tree and fileTreeAdd\<close>

text \<open>
  \<open>vscode.ChatResponseFileTree\<close> is \<open>{ name: string; children?: ChatResponseFileTree[] }\<close>:
  a node without \<open>children\<close> is a file, a node with a (possibly empty) list is a directory.
  Every node object of the tree is created by \<open>fileTreeAdd\<close> and pushed into one list, so no
  node is shared and the in-place updates of the code are updates of a value.
\<close>

datatype ChatResponseFileTree =
  Node (name: string) (children: "ChatResponseFileTree list option")

text \<open>Updating, in place, the first element of a list that satisfies \<open>P\<close>: what the code
  does to the child that \<open>find\<close> returned.\<close>

primrec update_first :: "('a \<Rightarrow> bool) \<Rightarrow> ('a \<Rightarrow> 'a) \<Rightarrow> 'a list \<Rightarrow> 'a list" where
  "update_first P f [] = []"
| "update_first P f (x # xs) = (if P x then f x # xs else x # update_first P f xs)"

text \<open>
  The loop over \<open>segments\<close> from the node \<open>parent\<close>, followed by the final
  \<open>parent.children?.push({ name: filename })\<close>. When \<open>parent.children\<close> is undefined,
  \<open>find\<close> is not called, the new child is not pushed anywhere, and everything the rest of
  the function does happens to nodes that are not part of the tree.
\<close>

fun insert_at :: "string list \<Rightarrow> string \<Rightarrow> ChatResponseFileTree \<Rightarrow> ChatResponseFileTree" where
  "insert_at [] filename parent =
     (case children parent of
        None \<Rightarrow> parent
      | Some cs \<Rightarrow> Node (name parent) (Some (cs @ [Node filename None])))"
| "insert_at (segment # segments) filename parent =
     (if segment = ''.'' then insert_at segments filename parent
      else
        case children parent of
          None \<Rightarrow> parent
        | Some cs \<Rightarrow>
            (case find (\<lambda>child. name child = segment) cs of
               None \<Rightarrow>
                 Node (name parent)
                   (Some (cs @ [insert_at segments filename (Node segment (Some []))]))
             | Some child \<Rightarrow>
                 Node (name parent)
                   (Some (update_first (\<lambda>child. name child = segment)
                            (\<lambda>child. insert_at segments filename child) cs))))"

definition fileTreeAdd :: "ChatResponseFileTree \<Rightarrow> string \<Rightarrow> string \<Rightarrow> ChatResponseFileTree" where
  "fileTreeAdd root relativePath filePath =
     insert_at (split_on (CHR ''/'') (dirname relativePath)) (basename relativePath) root"

text \<open>
  What can be read off a tree: the paths of its files (each a list of names from the node
  down to a node without children), and whether no list of children holds two directories
  of the same name.
\<close>

fun file_paths :: "ChatResponseFileTree \<Rightarrow> string list list" where
  "file_paths (Node n None) = [[n]]"
| "file_paths (Node n (Some cs)) = map ((#) n) (concat (map file_paths cs))"

definition is_dir :: "ChatResponseFileTree \<Rightarrow> bool" where
  "is_dir t \<longleftrightarrow> children t \<noteq> None"

fun dirs_distinct :: "ChatResponseFileTree \<Rightarrow> bool" where
  "dirs_distinct (Node n None) = True"
| "dirs_distinct (Node n (Some cs)) =
     (distinct (map name (filter is_dir cs)) \<and> (\<forall>c \<in> set cs. dirs_distinct c))"

text \<open>
  Whether the walk of \<open>fileTreeAdd\<close> along \<open>segments\<close> stays on nodes that have a list of
  children, up to and including the node the file is pushed into. It does not when a
  directory segment names a child that is a file.
\<close>

fun walkable :: "string list \<Rightarrow> ChatResponseFileTree \<Rightarrow> bool" where
  "walkable [] parent = (children parent \<noteq> None)"
| "walkable (segment # segments) parent =
     (if segment = ''.'' then walkable segments parent
      else
        case children parent of
          None \<Rightarrow> False
        | Some cs \<Rightarrow>
            (case find (\<lambda>child. name child = segment) cs of
               None \<Rightarrow> True
             | Some child \<Rightarrow> walkable segments child))"

text \<open>
  \<open>path.posix.join\<close> and \<open>path.posix.relative\<close>. Both normalise: empty segments and \<open>"."\<close>
  are dropped and \<open>".."\<close> removes the segment before it (staying at the root of an absolute
  path, and kept at the start of a relative one). \<open>relative\<close> resolves both of its arguments
  against the working directory of the process, \<open>cwd\<close>, drops the segments they share, and
  climbs with \<open>".."\<close> out of what is left of the first.
\<close>

definition normalize_step :: "bool \<Rightarrow> string list \<Rightarrow> string \<Rightarrow> string list" where
  "normalize_step allowAboveRoot res segment =
     (if segment = [] \<or> segment = ''.'' then res
      else if segment = ''..'' then
        (if res \<noteq> [] \<and> last res \<noteq> ''..'' then butlast res
         else if allowAboveRoot then res @ [''..''] else res)
      else res @ [segment])"

definition normalize_segments :: "bool \<Rightarrow> string list \<Rightarrow> string list" where
  "normalize_segments allowAboveRoot segments = foldl (normalize_step allowAboveRoot) [] segments"

fun join_segments :: "string list \<Rightarrow> string" where
  "join_segments [] = []"
| "join_segments [s] = s"
| "join_segments (s # t # ss) = s @ ''/'' @ join_segments (t # ss)"

definition isAbsolute :: "string \<Rightarrow> bool" where
  "isAbsolute p = (p \<noteq> [] \<and> hd p = CHR ''/'')"

definition normalize :: "string \<Rightarrow> string" where
  "normalize p =
     (if p = [] then ''.''
      else
        let trailingSeparator = (last p = CHR ''/'');
            body = join_segments (normalize_segments (\<not> isAbsolute p) (split_on (CHR ''/'') p))
        in if body = [] then (if isAbsolute p then ''/'' else if trailingSeparator then ''./'' else ''.'')
           else (if isAbsolute p then ''/'' else []) @ body @ (if trailingSeparator then ''/'' else []))"

definition join :: "string \<Rightarrow> string \<Rightarrow> string" where
  "join a b =
     (if a = [] \<and> b = [] then ''.''
      else if a = [] then normalize b
      else if b = [] then normalize a
      else normalize (a @ ''/'' @ b))"

text \<open>The segments of \<open>path.posix.resolve(p)\<close>, which is absolute; \<open>cwd\<close> is an absolute path.\<close>

definition resolve_segments :: "string \<Rightarrow> string \<Rightarrow> string list" where
  "resolve_segments cwd p =
     normalize_segments False
       (if isAbsolute p then split_on (CHR ''/'') p
        else split_on (CHR ''/'') cwd @ split_on (CHR ''/'') p)"

fun common_prefix_length :: "string list \<Rightarrow> string list \<Rightarrow> nat" where
  "common_prefix_length (x # xs) (y # ys) = (if x = y then Suc (common_prefix_length xs ys) else 0)"
| "common_prefix_length xs ys = 0"

definition relative :: "string \<Rightarrow> string \<Rightarrow> string \<Rightarrow> string" where
  "relative cwd from to =
     (if from = to then []
      else
        let f = resolve_segments cwd from;
            t = resolve_segments cwd to;
            c = common_prefix_length f t
        in join_segments (replicate (length f - c) ''..'' @ drop c t))"

section \<open>runWithLimitedConcurrency\<close>

text \<open>
  The function runs on one cooperative thread: it executes until it reaches an \<open>await\<close>, and
  everything else (the settling of what a callback awaits, the \<open>.then\<close>/\<open>.catch\<close> handlers
  attached to a callback's promise) happens in between, in an order the code does not
  control. An execution is therefore a schedule: a list of events, each of which is the
  function taking its next step, the environment delivering a result to a started
  callback, or the handlers of a settled callback promise running.

  A callback invocation has a local state while it is pending; \<open>invoke\<close> is the call
  \<open>callback(item)\<close> up to its first \<open>await\<close>, \<open>resume\<close> continues it with what the environment
  delivers, and either may change the state the callbacks share. Each ends with the
  invocation still pending (\<open>Inl\<close> of the new local state) or with its promise settled
  (\<open>Inr\<close>, a rejection being \<open>Inl e\<close> and a fulfilment \<open>Inr ()\<close>).
\<close>

type_synonym 'e outcome = "'e + unit"

record ('t, 'l, 'ev, 'e, 'st) callback =
  invoke :: "'t \<Rightarrow> 'st \<Rightarrow> ('l + 'e outcome) \<times> 'st"
  resume :: "'l \<Rightarrow> 'ev \<Rightarrow> 'st \<Rightarrow> ('l + 'e outcome) \<times> 'st"

text \<open>
  The invocation for item number \<open>i\<close> and the promise \<open>p\<close> built from it
  (\<open>callback(item).then(...).catch(...)\<close>) are both named \<open>i\<close>. \<open>Running\<close>: the callback's promise
  is pending. \<open>Settled\<close>: it has settled, the handlers have not run yet. \<open>Reacted\<close>: the
  handlers have run, so \<open>p\<close> has settled the same way and, after a fulfilment, has been
  spliced out of \<open>queue\<close>.
\<close>

datatype ('l, 'e) task =
    Running 'l
  | Settled "'e outcome"
  | Reacted "'e outcome"

text \<open>
  Where the function is: in the \<open>for\<close> loop between two awaits, suspended in
  \<open>await Promise.race(queue)\<close> or in \<open>await Promise.all(queue)\<close> (with the promises the array
  held when the call was made, and how the race or join has settled so far), or finished.
\<close>

datatype 'e control =
    Dispatching
  | AwaitingRace "nat list" "'e outcome option"
  | AwaitingAll "nat list" "'e outcome option"
  | Returned
  | Threw 'e

datatype 'ev event =
    Advance
  | Deliver nat 'ev
  | React nat

record ('l, 'e, 'st) limiter =
  queue :: "nat list"
  tasks :: "('l, 'e) task list"
  control :: "'e control"
  shared :: 'st

text \<open>How the promise \<open>p\<close> of task \<open>j\<close> has settled, if it has.\<close>

definition p_state :: "('l, 'e) task list \<Rightarrow> nat \<Rightarrow> 'e outcome option" where
  "p_state ts j =
     (if j < length ts then (case ts ! j of Reacted out \<Rightarrow> Some out | _ \<Rightarrow> None) else None)"

text \<open>
  \<open>Promise.race(ps)\<close> at the moment of the call: settled like the first element of \<open>ps\<close> that
  has settled already, pending when none has. \<open>Promise.all(ps)\<close> at the moment of the call:
  rejected like the first element that has been rejected already, fulfilled when every
  element has been fulfilled, pending otherwise.
\<close>

fun race_of :: "('l, 'e) task list \<Rightarrow> nat list \<Rightarrow> 'e outcome option" where
  "race_of ts [] = None"
| "race_of ts (j # js) = (case p_state ts j of Some out \<Rightarrow> Some out | None \<Rightarrow> race_of ts js)"

fun first_rejected :: "('l, 'e) task list \<Rightarrow> nat list \<Rightarrow> 'e option" where
  "first_rejected ts [] = None"
| "first_rejected ts (j # js) =
     (case p_state ts j of Some (Inl e) \<Rightarrow> Some e | _ \<Rightarrow> first_rejected ts js)"

definition all_of :: "('l, 'e) task list \<Rightarrow> nat list \<Rightarrow> 'e outcome option" where
  "all_of ts ps =
     (case first_rejected ts ps of
        Some e \<Rightarrow> Some (Inl e)
      | None \<Rightarrow> if list_all (\<lambda>j. p_state ts j = Some (Inr ())) ps then Some (Inr ()) else None)"

text \<open>\<open>queue.splice(queue.indexOf(p), 1)\<close>; \<open>indexOf\<close> gives -1 for a \<open>p\<close> that is not in the
  array, and \<open>splice(-1, 1)\<close> removes the last element.\<close>

definition splice_out :: "nat \<Rightarrow> nat list \<Rightarrow> nat list" where
  "splice_out p q = (if p \<in> set q then remove1 p q else butlast q)"

text \<open>
  One step of the function itself. In the loop it takes the next item: it calls the
  callback, pushes \<open>p\<close>, and suspends in a race when \<open>queue.length >= concurrencyLimit\<close>; with
  no item left it suspends in the join. Suspended, it continues only once the awaited
  promise has settled: after a race that was fulfilled with the loop, after a join that
  was fulfilled by returning, and after a rejection by throwing.
\<close>

definition advance ::
  "'t list \<Rightarrow> ('t, 'l, 'ev, 'e, 'st) callback \<Rightarrow> int \<Rightarrow> ('l, 'e, 'st) limiter \<Rightarrow> ('l, 'e, 'st) limiter" where
  "advance items callback concurrencyLimit w =
     (case control w of
        Dispatching \<Rightarrow>
          if length (tasks w) < length items then
            (case invoke callback (items ! length (tasks w)) (shared w) of
               (r, st') \<Rightarrow>
                 let p = length (tasks w);
                     ts' = tasks w @ [case r of Inl l \<Rightarrow> Running l | Inr out \<Rightarrow> Settled out];
                     q' = queue w @ [p]
                 in if int (length q') \<ge> concurrencyLimit
                    then w\<lparr>queue := q', tasks := ts', shared := st',
                           control := AwaitingRace q' (race_of ts' q')\<rparr>
                    else w\<lparr>queue := q', tasks := ts', shared := st'\<rparr>)
          else w\<lparr>control := AwaitingAll (queue w) (all_of (tasks w) (queue w))\<rparr>
      | AwaitingRace ps (Some (Inr u)) \<Rightarrow> w\<lparr>control := Dispatching\<rparr>
      | AwaitingRace ps (Some (Inl e)) \<Rightarrow> w\<lparr>control := Threw e\<rparr>
      | AwaitingRace ps None \<Rightarrow> w
      | AwaitingAll ps (Some (Inr u)) \<Rightarrow> w\<lparr>control := Returned\<rparr>
      | AwaitingAll ps (Some (Inl e)) \<Rightarrow> w\<lparr>control := Threw e\<rparr>
      | AwaitingAll ps None \<Rightarrow> w
      | Returned \<Rightarrow> w
      | Threw e \<Rightarrow> w)"

text \<open>The environment delivers \<open>ev\<close> to invocation \<open>i\<close>, if that invocation is pending.\<close>

definition deliver ::
  "('t, 'l, 'ev, 'e, 'st) callback \<Rightarrow> nat \<Rightarrow> 'ev \<Rightarrow> ('l, 'e, 'st) limiter \<Rightarrow> ('l, 'e, 'st) limiter" where
  "deliver callback i ev w =
     (if i < length (tasks w) then
        (case tasks w ! i of
           Running l \<Rightarrow>
             (case resume callback l ev (shared w) of
                (r, st') \<Rightarrow>
                  w\<lparr>tasks := (tasks w)[i := (case r of Inl l' \<Rightarrow> Running l' | Inr out \<Rightarrow> Settled out)],
                    shared := st'\<rparr>)
         | _ \<Rightarrow> w)
      else w)"

text \<open>
  The promise \<open>p\<close> of task \<open>i\<close> has just settled as \<open>out\<close>: a pending race that holds \<open>p\<close>
  settles the same way; a pending join that holds \<open>p\<close> is rejected by a rejection and is
  fulfilled by a fulfilment that was the last one missing.
\<close>

definition notify :: "nat \<Rightarrow> 'e outcome \<Rightarrow> ('l, 'e, 'st) limiter \<Rightarrow> ('l, 'e, 'st) limiter" where
  "notify i out w =
     (case control w of
        AwaitingRace ps None \<Rightarrow>
          if i \<in> set ps then w\<lparr>control := AwaitingRace ps (Some out)\<rparr> else w
      | AwaitingAll ps None \<Rightarrow>
          if i \<in> set ps then
            (case out of
               Inl e \<Rightarrow> w\<lparr>control := AwaitingAll ps (Some (Inl e))\<rparr>
             | Inr u \<Rightarrow>
                 if list_all (\<lambda>j. p_state (tasks w) j = Some (Inr ())) ps
                 then w\<lparr>control := AwaitingAll ps (Some (Inr ()))\<rparr> else w)
          else w
      | _ \<Rightarrow> w)"

text \<open>
  The handlers of the settled callback promise of task \<open>i\<close> run. After a fulfilment the
  \<open>.then\<close> handler splices \<open>p\<close> out of \<open>queue\<close> and \<open>p\<close> is fulfilled; after a rejection the \<open>.then\<close>
  handler is skipped, the \<open>.catch\<close> handler rethrows, and \<open>p\<close> is rejected, still in \<open>queue\<close>.
\<close>

definition react :: "nat \<Rightarrow> ('l, 'e, 'st) limiter \<Rightarrow> ('l, 'e, 'st) limiter" where
  "react i w =
     (if i < length (tasks w) then
        (case tasks w ! i of
           Settled (Inr u) \<Rightarrow>
             notify i (Inr ())
               (w\<lparr>queue := splice_out i (queue w), tasks := (tasks w)[i := Reacted (Inr ())]\<rparr>)
         | Settled (Inl e) \<Rightarrow>
             notify i (Inl e) (w\<lparr>tasks := (tasks w)[i := Reacted (Inl e)]\<rparr>)
         | _ \<Rightarrow> w)
      else w)"

fun step ::
  "'t list \<Rightarrow> ('t, 'l, 'ev, 'e, 'st) callback \<Rightarrow> int \<Rightarrow> 'ev event \<Rightarrow> ('l, 'e, 'st) limiter
    \<Rightarrow> ('l, 'e, 'st) limiter" where
  "step items callback concurrencyLimit Advance w = advance items callback concurrencyLimit w"
| "step items callback concurrencyLimit (Deliver i ev) w = deliver callback i ev w"
| "step items callback concurrencyLimit (React i) w = react i w"

text \<open>The call \<open>runWithLimitedConcurrency(items, callback, concurrencyLimit)\<close> starts with
  \<open>queue = []\<close>; the state after a schedule is the fold of its events.\<close>

definition start_run :: "'st \<Rightarrow> ('l, 'e, 'st) limiter" where
  "start_run st = \<lparr>queue = [], tasks = [], control = Dispatching, shared = st\<rparr>"

definition runWithLimitedConcurrency ::
  "'t list \<Rightarrow> ('t, 'l, 'ev, 'e, 'st) callback \<Rightarrow> int \<Rightarrow> 'ev event list \<Rightarrow> 'st
    \<Rightarrow> ('l, 'e, 'st) limiter" where
  "runWithLimitedConcurrency items callback concurrencyLimit schedule st =
     foldl (\<lambda>w ev. step items callback concurrencyLimit ev w) (start_run st) schedule"

text \<open>The callback invocations that have started and not yet settled.\<close>

definition is_running :: "('l, 'e) task \<Rightarrow> bool" where
  "is_running t = (case t of Running l \<Rightarrow> True | _ \<Rightarrow> False)"

definition in_flight :: "('l, 'e, 'st) limiter \<Rightarrow> nat" where
  "in_flight w = length (filter is_running (tasks w))"

text \<open>
  The simplest callbacks, for the examples: an invocation is pending until the environment
  delivers how it settles, and the shared state counts the invocations made.
\<close>

definition plain_callback :: "('t, unit, 'e outcome, 'e, nat) callback" where
  "plain_callback =
     \<lparr>invoke = (\<lambda>item n. (Inl (), Suc n)), resume = (\<lambda>l out n. (Inr out, n))\<rparr>"

text \<open>
  What holds of \<open>queue\<close> in every state of a run: it holds no promise twice, no more
  callbacks have been started than there are items, and it holds exactly the promises of
  the started callbacks that have not been fulfilled and spliced out.
\<close>

definition queue_inv :: "'t list \<Rightarrow> ('l, 'e, 'st) limiter \<Rightarrow> bool" where
  "queue_inv items w \<longleftrightarrow>
     distinct (queue w) \<and> length (tasks w) \<le> length items
     \<and> (\<forall>i. i \<in> set (queue w) \<longleftrightarrow> i < length (tasks w) \<and> tasks w ! i \<noteq> Reacted (Inr ()))"

text \<open>
  What holds, in every state of a run, of where the function is: the length of \<open>queue\<close> is
  below the limit while the loop runs and at most the limit while a race is awaited (the
  limit counting as 1 when it is smaller); a pending race or join awaits promises of
  started callbacks of which one at least is still pending; a race or join that was
  rejected, and an exception thrown, carry the rejection of a started callback; and the
  join is awaited, and the function returns, only after every item was dispatched.
\<close>

fun control_ok :: "nat \<Rightarrow> nat list \<Rightarrow> ('l, 'e) task list \<Rightarrow> int \<Rightarrow> 'e control \<Rightarrow> bool" where
  "control_ok n q ts L Dispatching = (int (length q) < max L 1)"
| "control_ok n q ts L (AwaitingRace ps None) =
     (int (length q) \<le> max L 1 \<and> ps \<noteq> []
      \<and> (\<forall>j \<in> set ps. j < length ts \<and> p_state ts j = None))"
| "control_ok n q ts L (AwaitingRace ps (Some (Inl e))) =
     (int (length q) \<le> max L 1 \<and> (\<exists>j. p_state ts j = Some (Inl e)))"
| "control_ok n q ts L (AwaitingRace ps (Some (Inr u))) = (int (length q) < max L 1)"
| "control_ok n q ts L (AwaitingAll ps None) =
     (length ts = n \<and> int (length q) < max L 1 \<and> set q \<subseteq> set ps
      \<and> (\<exists>j \<in> set ps. p_state ts j = None)
      \<and> (\<forall>j \<in> set ps. j < length ts \<and> (\<forall>e. p_state ts j \<noteq> Some (Inl e))))"
| "control_ok n q ts L (AwaitingAll ps (Some (Inl e))) =
     (length ts = n \<and> int (length q) < max L 1 \<and> (\<exists>j. p_state ts j = Some (Inl e)))"
| "control_ok n q ts L (AwaitingAll ps (Some (Inr u))) = (length ts = n \<and> q = [])"
| "control_ok n q ts L Returned = (length ts = n \<and> q = [])"
| "control_ok n q ts L (Threw e) =
     (int (length q) \<le> max L 1 \<and> (\<exists>j. p_state ts j = Some (Inl e)))"

definition control_inv :: "'t list \<Rightarrow> int \<Rightarrow> ('l, 'e, 'st) limiter \<Rightarrow> bool" where
  "control_inv items L w = control_ok (length items) (queue w) (tasks w) L (control w)"

definition limiter_inv :: "'t list \<Rightarrow> int \<Rightarrow> ('l, 'e, 'st) limiter \<Rightarrow> bool" where
  "limiter_inv items L w \<longleftrightarrow> queue_inv items w \<and> control_inv items L w"

text \<open>
  A bound on the steps the function itself can still take: two for each item not yet
  dispatched (the dispatch and the resumption after a race), and the join.
\<close>

fun steps_of :: "nat \<Rightarrow> nat \<Rightarrow> 'e control \<Rightarrow> nat" where
  "steps_of n k Dispatching = 2 * (n - k) + 2"
| "steps_of n k (AwaitingRace ps r) = 2 * (n - k) + 3"
| "steps_of n k (AwaitingAll ps r) = 1"
| "steps_of n k Returned = 0"
| "steps_of n k (Threw e) = 0"

definition steps_left :: "nat \<Rightarrow> ('l, 'e, 'st) limiter \<Rightarrow> nat" where
  "steps_left n w = steps_of n (length (tasks w)) (control w)"

text \<open>
  \<open>finished\<close>: the returned promise has settled. \<open>quiescent\<close>: nothing started is outstanding,
  every started callback has settled and its handlers have run.
\<close>

definition finished :: "('l, 'e, 'st) limiter \<Rightarrow> bool" where
  "finished w = (case control w of Returned \<Rightarrow> True | Threw e \<Rightarrow> True | _ \<Rightarrow> False)"

definition quiescent :: "('l, 'e, 'st) limiter \<Rightarrow> bool" where
  "quiescent w = list_all (\<lambda>t. case t of Reacted out \<Rightarrow> True | _ \<Rightarrow> False) (tasks w)"

text \<open>The task a callback invocation becomes after \<open>invoke\<close> or \<open>resume\<close> answered \<open>r\<close>.\<close>

definition task_of :: "('l + 'e outcome) \<Rightarrow> ('l, 'e) task" where
  "task_of r = (case r of Inl l \<Rightarrow> Running l | Inr out \<Rightarrow> Settled out)"

text \<open>
  More that holds in every state of a run: while a race is pending, it awaits every promise
  that \<open>queue\<close> holds. And two kinds of states: those in which the promise \<open>p\<close> of some
  invocation has been rejected, and those in which every item was dispatched and the promise
  of every invocation has been fulfilled.
\<close>

definition race_inv :: "('l, 'e, 'st) limiter \<Rightarrow> bool" where
  "race_inv w \<longleftrightarrow> (\<forall>ps. control w = AwaitingRace ps None \<longrightarrow> set (queue w) \<subseteq> set ps)"

definition some_rejected :: "('l, 'e, 'st) limiter \<Rightarrow> bool" where
  "some_rejected w \<longleftrightarrow> (\<exists>i < length (tasks w). \<exists>e. tasks w ! i = Reacted (Inl e))"

definition all_fulfilled :: "'t list \<Rightarrow> ('l, 'e, 'st) limiter \<Rightarrow> bool" where
  "all_fulfilled items w \<longleftrightarrow>
     length (tasks w) = length items \<and> (\<forall>i < length (tasks w). tasks w ! i = Reacted (Inr ()))"
section \<open>getSampleFileInfo\<close>

text \<open>
  \<open>SampleUrlInfo\<close> is declared in \<open>./sample\<close>, which is not among the sources; the code reads
  its fields \<open>owner\<close>, \<open>repository\<close>, \<open>ref\<close> and \<open>dir\<close>, all interpolated as strings. The body of
  the listing response is cast to \<open>SampleFileInfo\<close> without a check, so the body itself, its
  \<open>tree\<close> and its \<open>sha\<close> may each be absent (\<open>None\<close>); a template literal renders an absent value
  as the text \<open>undefined\<close>.
\<close>

record SampleUrlInfo =
  owner :: string
  repository :: string
  ref :: string
  dir :: string

record TreeEntry =
  path :: string
  type :: string

record SampleFileInfo =
  tree :: "TreeEntry list option"
  sha :: "string option"

text \<open>The returned object \<open>{ samplePaths, fileUrlPrefix }\<close> is the pair of the two, in this
  order; \<open>samplePaths\<close> is \<open>None\<close> when it is undefined.\<close>

type_synonym SampleFiles = "string list option \<times> string"

definition startsWith :: "string \<Rightarrow> string \<Rightarrow> bool" where
  "startsWith s p = (take (length p) s = p)"

definition interpolate :: "string option \<Rightarrow> string" where
  "interpolate v = (case v of None \<Rightarrow> ''undefined'' | Some s \<Rightarrow> s)"

definition fileInfoUrl :: "SampleUrlInfo \<Rightarrow> string" where
  "fileInfoUrl urlInfo =
     ''https://api.github.com/repos/'' @ owner urlInfo @ ''/'' @ repository urlInfo
       @ ''/git/trees/'' @ ref urlInfo @ ''?recursive=1''"

text \<open>
  \<open>http_get url\<close> stands for \<open>axios.get(url)\<close>, a call into the environment. After the awaited
  request, \<open>fileInfo?.tree?.filter(...).map(...)\<close> and the template for \<open>fileUrlPrefix\<close>; a
  failed request is rethrown.
\<close>

definition getSampleFileInfo ::
  "(string \<Rightarrow> 's \<Rightarrow> (SampleFileInfo option, 'e) attempt \<times> 's) \<Rightarrow> SampleUrlInfo \<Rightarrow> int \<Rightarrow> 's
     \<Rightarrow> ((SampleFileInfo option, 'e) error + SampleFiles) \<times> 's" where
  "getSampleFileInfo http_get urlInfo retryLimits s =
     (case sendRequestWithRetry (http_get (fileInfoUrl urlInfo)) retryLimits s of
        (Inl err, s') \<Rightarrow> (Inl err, s')
      | (Inr res, s') \<Rightarrow>
          (let fileInfo = data res
           in Inr ((case fileInfo of
                        None \<Rightarrow> None
                      | Some info \<Rightarrow>
                          (case tree info of
                             None \<Rightarrow> None
                           | Some nodes \<Rightarrow>
                               Some (map path
                                 (filter (\<lambda>node. startsWith (path node) (dir urlInfo @ ''/'')
                                                 \<and> type node \<noteq> ''tree'') nodes)))),
                   ''https://raw.githubusercontent.com/'' @ owner urlInfo @ ''/''
                     @ repository urlInfo @ ''/''
                     @ interpolate (case fileInfo of None \<Rightarrow> None | Some info \<Rightarrow> sha info)
                     @ ''/''),
           s'))"

text \<open>A listing service for the examples: every request is answered at once with status
  200 and the given body.\<close>

definition serve :: "SampleFileInfo option \<Rightarrow> string \<Rightarrow> unit \<Rightarrow> (SampleFileInfo option, unit) attempt \<times> unit" where
  "serve body url s = (Resolved \<lparr>status = 200, data = body\<rparr>, s)"

definition sample_url :: SampleUrlInfo where
  "sample_url = \<lparr>owner = ''o'', repository = ''r'', ref = ''main'', dir = ''s''\<rparr>"

section \<open>downloadSampleFiles and buildFileTree\<close>

text \<open>
  The two download callbacks. Each awaits three things in turn: the retried request for
  \<open>fileUrlPrefix + samplePath\<close>, \<open>fs.ensureFile(filePath)\<close> and \<open>fs.writeFile(filePath, data)\<close>.
  The local state of an invocation says which one it is waiting for. What the environment
  delivers is, for the request, how the attempts for each URL settle (the retry loop then
  runs against that script), and for a file operation whether it failed. The disk maps a
  path to the bytes of the file there.
\<close>

datatype download_state =
    Fetching string
  | Ensuring string string
  | Writing string string

datatype ('e, 'f) download_event =
    Responses "string \<Rightarrow> nat \<Rightarrow> (string, 'e) attempt"
  | FileOp "'f option"

datatype ('e, 'f) download_error =
    RequestFailed "(string, 'e) error"
  | FileFailed 'f

type_synonym disk = "string \<Rightarrow> string option"

text \<open>\<open>fs.ensureFile\<close> creates the file, empty, when there is none; \<open>fs.writeFile\<close> replaces its
  content.\<close>

definition ensureFile :: "string \<Rightarrow> disk \<Rightarrow> disk" where
  "ensureFile filePath d = (case d filePath of None \<Rightarrow> d(filePath \<mapsto> []) | Some bytes \<Rightarrow> d)"

definition writeFile :: "string \<Rightarrow> string \<Rightarrow> disk \<Rightarrow> disk" where
  "writeFile filePath bytes d = d(filePath \<mapsto> bytes)"

text \<open>The part the two callbacks share once \<open>filePath\<close> is known: the two file operations.\<close>

definition file_steps ::
  "download_state \<Rightarrow> ('e, 'f) download_event \<Rightarrow> disk
     \<Rightarrow> (download_state + ('e, 'f) download_error outcome) \<times> disk" where
  "file_steps l ev d =
     (case (l, ev) of
        (Ensuring filePath bytes, FileOp None) \<Rightarrow> (Inl (Writing filePath bytes), ensureFile filePath d)
      | (Ensuring filePath bytes, FileOp (Some f)) \<Rightarrow> (Inr (Inl (FileFailed f)), d)
      | (Writing filePath bytes, FileOp None) \<Rightarrow> (Inr (Inr ()), writeFile filePath bytes d)
      | (Writing filePath bytes, FileOp (Some f)) \<Rightarrow> (Inr (Inl (FileFailed f)), d)
      | _ \<Rightarrow> (Inl l, d))"



text \<open>
  The callback of \<open>buildFileTree\<close>; the shared state is the tree under construction and the
  disk. The tree gets the path relative to \<open>relativeFolderName\<close>, the file goes to
  \<open>path.join(dstPath, samplePath)\<close>.
\<close>

definition treeCallback ::
  "string \<Rightarrow> string \<Rightarrow> string \<Rightarrow> string \<Rightarrow> int
     \<Rightarrow> (string, download_state, ('e, 'f) download_event, ('e, 'f) download_error,
         ChatResponseFileTree \<times> disk) callback" where
  "treeCallback cwd fileUrlPrefix dstPath relativeFolderName retryLimits =
     \<lparr>invoke = (\<lambda>samplePath st. (Inl (Fetching samplePath), st)),
      resume = (\<lambda>l ev (root, d).
        case (l, ev) of
          (Fetching samplePath, Responses http) \<Rightarrow>
            (case fst (sendRequestWithRetry (scripted (http (fileUrlPrefix @ samplePath))) retryLimits 0) of
               Inl err \<Rightarrow> (Inr (Inl (RequestFailed err)), (root, d))
             | Inr file \<Rightarrow>
                 (let relativePath = relative cwd (relativeFolderName @ ''/'') samplePath;
                      filePath = join dstPath samplePath
                  in (Inl (Ensuring filePath (data file)), (fileTreeAdd root relativePath filePath, d))))
        | (Fetching samplePath, FileOp r) \<Rightarrow> (Inl l, (root, d))
        | _ \<Rightarrow> (case file_steps l ev d of (r, d') \<Rightarrow> (r, (root, d'))))\<rparr>"

text \<open>
  \<open>buildFileTree\<close>: the state the schedule leads to, and what the returned promise has
  settled to by then: \<open>root.children ?? []\<close> once the limiter has returned, the limiter's
  exception once it has thrown, nothing (\<open>None\<close>) while it is pending.
\<close>

definition buildFileTree_run ::
  "string \<Rightarrow> string \<Rightarrow> string list \<Rightarrow> string \<Rightarrow> string \<Rightarrow> int \<Rightarrow> int
     \<Rightarrow> ('e, 'f) download_event event list \<Rightarrow> disk
     \<Rightarrow> (download_state, ('e, 'f) download_error, ChatResponseFileTree \<times> disk) limiter" where
  "buildFileTree_run cwd fileUrlPrefix samplePaths dstPath relativeFolderName retryLimits
       concurrencyLimits schedule d =
     runWithLimitedConcurrency samplePaths
       (treeCallback cwd fileUrlPrefix dstPath relativeFolderName retryLimits) concurrencyLimits schedule
       (Node relativeFolderName (Some []), d)"

definition buildFileTree ::
  "string \<Rightarrow> string \<Rightarrow> string list \<Rightarrow> string \<Rightarrow> string \<Rightarrow> int \<Rightarrow> int
     \<Rightarrow> ('e, 'f) download_event event list \<Rightarrow> disk
     \<Rightarrow> (('e, 'f) download_error + ChatResponseFileTree list) option" where
  "buildFileTree cwd fileUrlPrefix samplePaths dstPath relativeFolderName retryLimits concurrencyLimits
       schedule d =
     (let w = buildFileTree_run cwd fileUrlPrefix samplePaths dstPath relativeFolderName retryLimits
                concurrencyLimits schedule d
      in case control w of
           Returned \<Rightarrow> Some (Inr (case children (fst (shared w)) of None \<Rightarrow> [] | Some cs \<Rightarrow> cs))
         | Threw e \<Rightarrow> Some (Inl e)
         | _ \<Rightarrow> None)"

text \<open>For the examples: a server that answers every request at once with status 200 and,
  as the bytes, the URL it was asked for; and the empty disk.\<close>

definition echo_server :: "string \<Rightarrow> nat \<Rightarrow> (string, unit) attempt" where
  "echo_server url n = Resolved \<lparr>status = 200, data = url\<rparr>"

definition fetched :: "(unit, unit) download_event" where
  "fetched = Responses echo_server"

definition file_done :: "(unit, unit) download_event" where
  "file_done = FileOp None"

definition empty_disk :: disk where
  "empty_disk = (\<lambda>p. None)"







text \<open>
  For \<open>buildFileTree\<close>: whether an invocation has called \<open>fileTreeAdd\<close> (it has once the request
  succeeded); the directory segments and the file path that \<open>fileTreeAdd\<close> derives from a
  sample path; and the lists of sample paths in which no file's path is the beginning of
  another file's chain of directories.
\<close>

fun inserted :: "(download_state, ('e, 'f) download_error) task \<Rightarrow> bool" where
  "inserted (Running (Fetching sp)) = False"
| "inserted (Running (Ensuring filePath bytes)) = True"
| "inserted (Running (Writing filePath bytes)) = True"
| "inserted (Settled (Inl (RequestFailed err))) = False"
| "inserted (Settled (Inl (FileFailed f))) = True"
| "inserted (Settled (Inr u)) = True"
| "inserted (Reacted (Inl (RequestFailed err))) = False"
| "inserted (Reacted (Inl (FileFailed f))) = True"
| "inserted (Reacted (Inr u)) = True"

definition tree_segments :: "string \<Rightarrow> string \<Rightarrow> string \<Rightarrow> string list" where
  "tree_segments cwd relativeFolderName samplePath =
     filter (\<lambda>s. s \<noteq> ''.'')
       (split_on (CHR ''/'') (dirname (relative cwd (relativeFolderName @ ''/'') samplePath)))"

definition tree_file :: "string \<Rightarrow> string \<Rightarrow> string \<Rightarrow> string list" where
  "tree_file cwd relativeFolderName samplePath =
     tree_segments cwd relativeFolderName samplePath
       @ [basename (relative cwd (relativeFolderName @ ''/'') samplePath)]"

definition clash_free :: "string \<Rightarrow> string \<Rightarrow> string list \<Rightarrow> bool" where
  "clash_free cwd relativeFolderName samplePaths \<longleftrightarrow>
     (\<forall>a \<in> set samplePaths. \<forall>b \<in> set samplePaths.
        take (length (tree_file cwd relativeFolderName a)) (tree_segments cwd relativeFolderName b)
          \<noteq> tree_file cwd relativeFolderName a)"

definition tree_ok ::
  "string \<Rightarrow> string \<Rightarrow> string list \<Rightarrow> (download_state, ('e, 'f) download_error) task list
     \<Rightarrow> ChatResponseFileTree \<times> disk \<Rightarrow> bool" where
  "tree_ok cwd relativeFolderName samplePaths ts st \<longleftrightarrow>
     name (fst st) = relativeFolderName \<and> dirs_distinct (fst st)
     \<and> length ts \<le> length samplePaths
     \<and> (\<forall>i < length ts. \<forall>sp. ts ! i = Running (Fetching sp) \<longrightarrow> sp = samplePaths ! i)
     \<and> mset (file_paths (fst st))
         = mset (map (\<lambda>x. relativeFolderName # tree_file cwd relativeFolderName (fst x))
                  (filter (\<lambda>x. inserted (snd x)) (zip samplePaths ts)))"

section \<open>Properties of sendRequestWithRetry\<close>

declare retry_loop.simps [simp del]

lemma retry_loop_stop:
  "\<not> (i < L \<and> canTry st) \<Longrightarrow>
     retry_loop rf L i st err s = (Inl (case err of None \<Rightarrow> BadTryLimits L | Some x \<Rightarrow> x), s)"
  by (subst retry_loop.simps) auto

lemma retry_loop_step:
  "i < L \<Longrightarrow> canTry st \<Longrightarrow>
     retry_loop (scripted f) L i st err m =
       (if is_success (f m) then (Inr (the (returned (f m))), Suc m)
        else retry_loop (scripted f) L (i + 1) (status_of (f m)) (error_of (f m)) (Suc m))"
  by (cases "f m") (simp_all add: retry_loop.simps[of "scripted f" L i st err m] scripted_def)

text \<open>
  What a run of the loop from call number \<open>m\<close> to call number \<open>n\<close> looks like: every
  call but the last failed with a status the loop retries; the loop made no call exactly
  when its guard failed at once; otherwise the last call decides the result.
\<close>

lemma retry_loop_scripted:
  assumes "retry_loop (scripted f) L i st err m = (r, n)"
  shows "m \<le> n \<and> int (n - m) \<le> max 0 (L - i)
     \<and> (\<forall>k. m \<le> k \<and> Suc k < n \<longrightarrow> \<not> is_success (f k) \<and> canTry (status_of (f k)))
     \<and> (n = m \<longrightarrow> r = Inl (case err of None \<Rightarrow> BadTryLimits L | Some x \<Rightarrow> x) \<and> \<not> (i < L \<and> canTry st))
     \<and> (m < n \<longrightarrow> i < L \<and> canTry st \<and>
           (case r of Inr res \<Rightarrow> returned (f (n - 1)) = Some res \<and> is_success (f (n - 1))
            | Inl e \<Rightarrow> e = (case error_of (f (n - 1)) of None \<Rightarrow> BadTryLimits L | Some x \<Rightarrow> x)
                 \<and> \<not> is_success (f (n - 1))
                 \<and> (\<not> canTry (status_of (f (n - 1))) \<or> int (n - m) = L - i)))"
  using assms
proof (induction "nat (L - i)" arbitrary: i st err m)
  case 0
  then show ?case by (auto simp: retry_loop_stop)
next
  case (Suc d)
  show ?case
  proof (cases "canTry st")
    case False
    with Suc.prems show ?thesis by (auto simp: retry_loop_stop)
  next
    case True
    from Suc.hyps(2) have lt: "i < L" by linarith
    show ?thesis
    proof (cases "is_success (f m)")
      case ok: True
      with Suc.prems lt True have "r = Inr (the (returned (f m)))" "n = Suc m"
        by (simp_all add: retry_loop_step)
      with ok lt True show ?thesis by (cases "f m") auto
    next
      case nok: False
      with Suc.prems lt True
      have rec: "retry_loop (scripted f) L (i + 1) (status_of (f m)) (error_of (f m)) (Suc m) = (r, n)"
        by (simp add: retry_loop_step)
      have d: "d = nat (L - (i + 1))" using Suc.hyps(2) by linarith
      note IH = Suc.hyps(1)[OF d rec]
      from IH have le: "Suc m \<le> n" by simp
      show ?thesis
      proof (cases "n = Suc m")
        case True
        with IH nok lt \<open>canTry st\<close> show ?thesis by (auto split: sum.splits)
      next
        case False
        with le have gt: "Suc m < n" by simp
        have "\<forall>k. m \<le> k \<and> Suc k < n \<longrightarrow> \<not> is_success (f k) \<and> canTry (status_of (f k))"
        proof (intro allI impI)
          fix k assume k: "m \<le> k \<and> Suc k < n"
          show "\<not> is_success (f k) \<and> canTry (status_of (f k))"
          proof (cases "k = m")
            case True
            with nok IH gt show ?thesis by simp
          next
            case False
            with k IH show ?thesis by simp
          qed
        qed
        moreover have "int (n - m) = int (n - Suc m) + 1" using gt by simp
        ultimately show ?thesis using IH gt lt \<open>canTry st\<close>
          by (auto split: sum.splits)
      qed
    qed
  qed
qed

lemma canTry_iff:
  "canTry st = (st = None \<or> st = Some 0 \<or> (\<exists>s. st = Some s \<and> 500 \<le> s \<and> s < 600))"
  by (cases st) auto

lemma sendRequestWithRetry_scripted:
  assumes "sendRequestWithRetry (scripted f) L 0 = (r, n)"
  shows "int n \<le> max 0 L"
    and "\<And>k. Suc k < n \<Longrightarrow> \<not> is_success (f k) \<and> canTry (status_of (f k))"
    and "n = 0 \<Longrightarrow> r = Inl (BadTryLimits L) \<and> L \<le> 0"
    and "0 < n \<Longrightarrow> 0 < L"
    and "0 < n \<Longrightarrow> r = Inr res \<Longrightarrow> returned (f (n - 1)) = Some res \<and> is_success (f (n - 1))"
    and "0 < n \<Longrightarrow> r = Inl e \<Longrightarrow>
           e = (case error_of (f (n - 1)) of None \<Rightarrow> BadTryLimits L | Some x \<Rightarrow> x)
           \<and> \<not> is_success (f (n - 1))
           \<and> (\<not> canTry (status_of (f (n - 1))) \<or> int n = L)"
  using retry_loop_scripted[OF assms[unfolded sendRequestWithRetry_def]]
  by (auto split: sum.splits)

text \<open>
  Claim C3 is not what the code does with a response that \<open>JSON.stringify\<close> cannot
  serialise. For a run of \<open>sendRequestWithRetry\<close> against a scripted \<open>requestFn\<close> that makes
  \<open>n\<close> calls and ends with \<open>r\<close>, the claim holds in these respects:
  \<^item> a returned response is that of the last call made, has status exactly 200 or 201, and
    no earlier call produced such a response (it is the first one);
  \<^item> a further call is made only after a call that left \<open>status\<close> undefined, the falsy 0
    (which \<open>!status\<close> also takes for a network error) or in [500,600);
  \<^item> for every \<open>N \<ge> 1\<close> within the budget, when each of the first \<open>N - 1\<close> calls fails and
    leaves such a status (503, say) and call \<open>N\<close> answers 200 or 201, exactly \<open>N\<close> calls are
    made and the response of call \<open>N\<close> is returned;
  \<^item> a call that leaves status 404 is the last call, whatever budget remains, and its
    error is thrown.

  It fails in that a response with status 404 does not always leave status 404: when
  \<open>JSON.stringify(res)\<close> throws, \<open>status\<close> stays undefined, so the call is repeated until
  the budget is used up and the \<open>TypeError\<close> is thrown: three calls for a budget of 3, and
  the same for a response with status 204. Status 404 stops the loop after one call when
  it comes with a response that can be serialised, and when it comes as
  \<open>e.response.status\<close> of a rejection.
\<close>

theorem sendRequestWithRetry_policy:
  assumes run: "sendRequestWithRetry (scripted script) tryLimits 0 = (r, n)"
  shows "(\<forall>res. r = Inr res \<longrightarrow>
            0 < n \<and> returned (script (n - 1)) = Some res \<and> (status res = 200 \<or> status res = 201)
            \<and> (\<forall>k. Suc k < n \<longrightarrow> \<not> is_success (script k)))
       \<and> (\<forall>k. Suc k < n \<longrightarrow>
            status_of (script k) = None \<or> status_of (script k) = Some 0
            \<or> (\<exists>s. status_of (script k) = Some s \<and> 500 \<le> s \<and> s < 600))
       \<and> (\<forall>N res. 1 \<le> N \<and> int N \<le> tryLimits
              \<and> (\<forall>k. Suc k < N \<longrightarrow> \<not> is_success (script k) \<and> canTry (status_of (script k)))
              \<and> returned (script (N - 1)) = Some res \<and> (status res = 200 \<or> status res = 201)
            \<longrightarrow> r = Inr res \<and> n = N)
       \<and> (\<forall>k. k < n \<and> status_of (script k) = Some 404 \<longrightarrow>
              n = Suc k \<and> (\<exists>e. error_of (script k) = Some e \<and> r = Inl e))
       \<and> sendRequestWithRetry (scripted (script_of [] (respond_unserialisable 404))) 3 0
            = (Inl JsonTypeError, 3)
       \<and> sendRequestWithRetry (scripted (script_of [] (respond_unserialisable 204))) 3 0
            = (Inl JsonTypeError, 3)
       \<and> sendRequestWithRetry (scripted (script_of [] (respond 404))) 3 0
            = (Inl (HttpRequestFailed \<lparr>status = 404, data = ()\<rparr>), 1)
       \<and> sendRequestWithRetry (scripted (script_of [] (reject_with (Some 404)))) 3 0
            = (Inl (Thrown \<lparr>is_cancel = False, response_status = Some 404, reason = ()\<rparr>), 1)"
proof -
  note facts = sendRequestWithRetry_scripted[OF run]
  have a: "\<forall>res. r = Inr res \<longrightarrow>
            0 < n \<and> returned (script (n - 1)) = Some res \<and> (status res = 200 \<or> status res = 201)
            \<and> (\<forall>k. Suc k < n \<longrightarrow> \<not> is_success (script k))"
  proof (intro allI impI)
    fix res assume r: "r = Inr res"
    have pos: "0 < n" using facts(3) r by (cases n) auto
    from facts(5)[OF pos r] have "returned (script (n - 1)) = Some res" "status res = 200 \<or> status res = 201"
      by (cases "script (n - 1)"; simp)+
    with pos facts(2) show "0 < n \<and> returned (script (n - 1)) = Some res \<and> (status res = 200 \<or> status res = 201)
            \<and> (\<forall>k. Suc k < n \<longrightarrow> \<not> is_success (script k))" by blast
  qed
  have b: "\<forall>k. Suc k < n \<longrightarrow>
            status_of (script k) = None \<or> status_of (script k) = Some 0
            \<or> (\<exists>s. status_of (script k) = Some s \<and> 500 \<le> s \<and> s < 600)"
    using facts(2) canTry_iff by blast
  have c: "\<forall>N res. 1 \<le> N \<and> int N \<le> tryLimits
              \<and> (\<forall>k. Suc k < N \<longrightarrow> \<not> is_success (script k) \<and> canTry (status_of (script k)))
              \<and> returned (script (N - 1)) = Some res \<and> (status res = 200 \<or> status res = 201)
            \<longrightarrow> r = Inr res \<and> n = N"
  proof (intro allI impI)
    fix N res
    assume h: "1 \<le> N \<and> int N \<le> tryLimits
              \<and> (\<forall>k. Suc k < N \<longrightarrow> \<not> is_success (script k) \<and> canTry (status_of (script k)))
              \<and> returned (script (N - 1)) = Some res \<and> (status res = 200 \<or> status res = 201)"
    then have ok: "is_success (script (N - 1))" by (cases "script (N - 1)") auto
    have pos: "0 < n" using facts(3) h by (cases n) auto
    have fail: "\<And>k. Suc k < N \<Longrightarrow> \<not> is_success (script k) \<and> canTry (status_of (script k))"
      using h by blast
    have "\<not> n < N"
    proof
      assume lt: "n < N"
      with pos have k: "Suc (n - 1) < N" by simp
      show False
      proof (cases r)
        case (Inr res')
        from facts(5)[OF pos Inr] fail[OF k] show False by auto
      next
        case (Inl e)
        from facts(6)[OF pos Inl] fail[OF k] lt h show False by auto
      qed
    qed
    moreover have "\<not> N < n"
    proof
      assume "N < n"
      with h have "Suc (N - 1) < n" by simp
      from facts(2)[OF this] ok show False by simp
    qed
    ultimately have n: "n = N" by simp
    have "r = Inr res"
    proof (cases r)
      case (Inr res')
      from facts(5)[OF pos Inr] h n show ?thesis using Inr by simp
    next
      case (Inl e)
      from facts(6)[OF pos Inl] ok n show ?thesis by simp
    qed
    with n show "r = Inr res \<and> n = N" by simp
  qed
  have d: "\<forall>k. k < n \<and> status_of (script k) = Some 404 \<longrightarrow>
              n = Suc k \<and> (\<exists>e. error_of (script k) = Some e \<and> r = Inl e)"
  proof (intro allI impI)
    fix k assume h: "k < n \<and> status_of (script k) = Some 404"
    then have nt: "\<not> canTry (status_of (script k))" by simp
    have ns: "\<not> is_success (script k)" using h by (cases "script k") auto
    from h obtain e where e: "error_of (script k) = Some e" by (cases "script k") auto
    have n: "n = Suc k"
    proof (rule ccontr)
      assume "n \<noteq> Suc k"
      with h have "Suc k < n" by simp
      from facts(2)[OF this] nt show False by simp
    qed
    then have pos: "0 < n" by simp
    have "r = Inl e"
    proof (cases r)
      case (Inr res')
      from facts(5)[OF pos Inr] ns n show ?thesis by simp
    next
      case (Inl e')
      from facts(6)[OF pos Inl] n e show ?thesis using Inl by simp
    qed
    with n e show "n = Suc k \<and> (\<exists>e. error_of (script k) = Some e \<and> r = Inl e)" by simp
  qed
  have e1: "sendRequestWithRetry (scripted (script_of [] (respond_unserialisable 404))) 3 0
            = (Inl JsonTypeError, 3)"
    by (simp add: sendRequestWithRetry_def retry_loop_step retry_loop_stop script_of_def
        respond_unserialisable_def)
  have e1': "sendRequestWithRetry (scripted (script_of [] (respond_unserialisable 204))) 3 0
            = (Inl JsonTypeError, 3)"
    by (simp add: sendRequestWithRetry_def retry_loop_step retry_loop_stop script_of_def
        respond_unserialisable_def)
  have e2: "sendRequestWithRetry (scripted (script_of [] (respond 404))) 3 0
            = (Inl (HttpRequestFailed \<lparr>status = 404, data = ()\<rparr>), 1)"
    by (simp add: sendRequestWithRetry_def retry_loop_step retry_loop_stop script_of_def respond_def)
  have e3: "sendRequestWithRetry (scripted (script_of [] (reject_with (Some 404)))) 3 0
            = (Inl (Thrown \<lparr>is_cancel = False, response_status = Some 404, reason = ()\<rparr>), 1)"
    by (simp add: sendRequestWithRetry_def retry_loop_step retry_loop_stop script_of_def
        reject_with_def)
  from a b c d e1 e1' e2 e3 show ?thesis by blast
qed

theorem sendRequestWithRetry_policy_witness:
  "sendRequestWithRetry (scripted (script_of [reject_with (Some 503), respond 503] (respond 201))) 5 0
     = (Inr \<lparr>status = 201, data = ()\<rparr>, 3)
   \<and> sendRequestWithRetry (scripted (script_of [reject_with (Some 503), respond 404] (respond 201))) 5 0
     = (Inl (HttpRequestFailed \<lparr>status = 404, data = ()\<rparr>), 2)"
proof -
  let ?script = "script_of [reject_with (Some 503), respond 503] (respond 201)"
  obtain r n where run: "sendRequestWithRetry (scripted ?script) 5 0 = (r, n)"
    by (cases "sendRequestWithRetry (scripted ?script) 5 0")
  have early: "\<forall>k. Suc k < 3 \<longrightarrow> \<not> is_success (?script k) \<and> canTry (status_of (?script k))"
  proof (intro allI impI)
    fix k :: nat assume "Suc k < 3"
    then have "k = 0 \<or> k = 1" by auto
    then show "\<not> is_success (?script k) \<and> canTry (status_of (?script k))"
      by (auto simp: script_of_def reject_with_def respond_def)
  qed
  have last: "returned (?script (3 - 1)) = Some \<lparr>status = 201, data = ()\<rparr>"
    by (simp add: script_of_def respond_def)
  have pre: "1 \<le> (3::nat) \<and> int 3 \<le> 5
      \<and> (\<forall>k. Suc k < 3 \<longrightarrow> \<not> is_success (?script k) \<and> canTry (status_of (?script k)))
      \<and> returned (?script (3 - 1)) = Some \<lparr>status = 201, data = ()\<rparr>
      \<and> (status \<lparr>status = 201, data = ()\<rparr> = 200 \<or> status \<lparr>status = 201, data = ()\<rparr> = 201)"
    using early last by simp
  note policy = sendRequestWithRetry_policy[OF run]
  from policy[THEN conjunct2, THEN conjunct2, THEN conjunct1, rule_format, OF pre]
  have first: "r = Inr \<lparr>status = 201, data = ()\<rparr> \<and> n = 3" .
  let ?script2 = "script_of [reject_with (Some 503), respond 404] (respond 201)"
  obtain r2 n2 where run2: "sendRequestWithRetry (scripted ?script2) 5 0 = (r2, n2)"
    by (cases "sendRequestWithRetry (scripted ?script2) 5 0")
  have n2: "n2 = 2"
    using run2 by (simp add: sendRequestWithRetry_def retry_loop_step retry_loop_stop script_of_def
        respond_def reject_with_def)
  have pre2: "1 < n2 \<and> status_of (?script2 1) = Some 404"
    using n2 by (simp add: script_of_def respond_def)
  note policy2 = sendRequestWithRetry_policy[OF run2]
  from policy2[THEN conjunct2, THEN conjunct2, THEN conjunct2, THEN conjunct1, rule_format, OF pre2]
  have "r2 = Inl (HttpRequestFailed \<lparr>status = 404, data = ()\<rparr>)"
    by (simp add: script_of_def respond_def)
  with first run run2 n2 show ?thesis by simp
qed

text \<open>
  Claim C9 is not what the code does with a rejection whose reason is nullish. With
  \<open>tryLimits \<le> 0\<close> the loop body never runs: \<open>requestFn\<close> is not called (the environment's
  state is returned as it was) and the bad-tryLimits error is thrown; and against a script
  no call is made exactly when \<open>tryLimits \<le> 0\<close>. But the bad-tryLimits error is the result
  exactly when \<open>error\<close> is nullish after the loop, which is when no call was made or the last
  call made rejected with \<open>undefined\<close> or \<open>null\<close>: with a budget of 3 and a \<open>requestFn\<close> that
  rejects with \<open>undefined\<close>, three calls are made and the error for a bad \<open>tryLimits\<close> of 3 is
  thrown.
\<close>

theorem sendRequestWithRetry_bad_tryLimits:
  "(tryLimits \<le> 0 \<longrightarrow>
      sendRequestWithRetry requestFn tryLimits s = (Inl (BadTryLimits tryLimits), s))
   \<and> (\<forall>r n. sendRequestWithRetry (scripted script) tryLimits 0 = (r, n) \<longrightarrow>
         ((\<exists>x. r = Inl (BadTryLimits x)) \<longleftrightarrow> n = 0 \<or> script (n - 1) = RejectedNullish)
         \<and> (n = 0 \<longleftrightarrow> tryLimits \<le> 0))
   \<and> sendRequestWithRetry (scripted (script_of [] reject_nullish)) 3 0 = (Inl (BadTryLimits 3), 3)"
proof (intro conjI allI impI)
  assume "tryLimits \<le> 0"
  then show "sendRequestWithRetry requestFn tryLimits s = (Inl (BadTryLimits tryLimits), s)"
    by (simp add: sendRequestWithRetry_def retry_loop_stop)
next
  fix r n
  assume run: "sendRequestWithRetry (scripted script) tryLimits 0 = (r, n)"
  note facts = sendRequestWithRetry_scripted[OF run]
  show "(\<exists>x. r = Inl (BadTryLimits x)) \<longleftrightarrow> n = 0 \<or> script (n - 1) = RejectedNullish"
  proof
    assume "\<exists>x. r = Inl (BadTryLimits x)"
    then obtain x where x: "r = Inl (BadTryLimits x)" by blast
    show "n = 0 \<or> script (n - 1) = RejectedNullish"
    proof (cases "n = 0")
      case False
      then have "0 < n" by simp
      from facts(6)[OF this x] show ?thesis by (cases "script (n - 1)") auto
    qed simp
  next
    assume h: "n = 0 \<or> script (n - 1) = RejectedNullish"
    show "\<exists>x. r = Inl (BadTryLimits x)"
    proof (cases "n = 0")
      case True
      with facts(3) show ?thesis by blast
    next
      case False
      then have pos: "0 < n" by simp
      with h have last: "script (n - 1) = RejectedNullish" by simp
      show ?thesis
      proof (cases r)
        case (Inr res)
        from facts(5)[OF pos Inr] last show ?thesis by simp
      next
        case (Inl e)
        from facts(6)[OF pos Inl] last Inl show ?thesis by simp
      qed
    qed
  qed
  show "n = 0 \<longleftrightarrow> tryLimits \<le> 0"
    using facts(3) facts(4) by (cases n) auto
next
  show "sendRequestWithRetry (scripted (script_of [] reject_nullish)) 3 0 = (Inl (BadTryLimits 3), 3)"
    by (simp add: sendRequestWithRetry_def retry_loop_step retry_loop_stop script_of_def
        reject_nullish_def)
qed

theorem sendRequestWithRetry_bad_tryLimits_witness:
  "(0::int) \<le> 0
   \<and> sendRequestWithRetry (scripted (script_of [] (respond 200))) 0 0 = (Inl (BadTryLimits 0), 0)
   \<and> sendRequestWithRetry (scripted (script_of [] (respond 200))) (- 3) 0 = (Inl (BadTryLimits (- 3)), 0)"
  using sendRequestWithRetry_bad_tryLimits[where tryLimits = 0
      and requestFn = "scripted (script_of [] (respond 200))" and s = 0
      and script = "script_of [] (respond 200)", THEN conjunct1]
    sendRequestWithRetry_bad_tryLimits[where tryLimits = "- 3"
      and requestFn = "scripted (script_of [] (respond 200))" and s = 0
      and script = "script_of [] (respond 200)", THEN conjunct1]
  by simp

section \<open>Properties of sendRequestWithTimeout\<close>

lemma retry_loop_unfold:
  "i < L \<Longrightarrow> canTry st \<Longrightarrow>
     retry_loop rf L i st err s =
       (case rf s of
          (Resolved res, s') \<Rightarrow>
             if status res = 200 \<or> status res = 201 then (Inr res, s')
             else retry_loop rf L (i + 1) (Some (status res)) (Some (HttpRequestFailed res)) s'
        | (Unserialisable res, s') \<Rightarrow>
             if status res = 200 \<or> status res = 201 then (Inr res, s')
             else retry_loop rf L (i + 1) None (Some JsonTypeError) s'
        | (Rejected e, s') \<Rightarrow>
             retry_loop rf L (i + 1) (response_status e) (Some (Thrown e)) s'
        | (RejectedNullish, s') \<Rightarrow>
             retry_loop rf L (i + 1) None None s')"
  by (subst retry_loop.simps) simp

lemma retry_loop_invariant:
  assumes step: "\<And>s a s'. P s \<Longrightarrow> rf s = (a, s') \<Longrightarrow> P s'"
    and init: "P s"
  shows "P (snd (retry_loop rf L i st err s))"
  using init
proof (induction "nat (L - i)" arbitrary: i st err s)
  case 0
  then show ?case by (simp add: retry_loop_stop)
next
  case (Suc d)
  show ?case
  proof (cases "canTry st")
    case False
    with Suc.prems show ?thesis by (simp add: retry_loop_stop)
  next
    case True
    from Suc.hyps(2) have lt: "i < L" by linarith
    have d: "d = nat (L - (i + 1))" using Suc.hyps(2) by linarith
    obtain a s' where rf: "rf s = (a, s')" by (cases "rf s")
    from step[OF Suc.prems rf] have P': "P s'" .
    show ?thesis
      using rf P' Suc.hyps(1)[OF d P']
      by (cases a) (auto simp: retry_loop_unfold[OF lt True])
  qed
qed

lemma retry_loop_not_timeout:
  assumes "err \<noteq> Some RequestTimeout"
  shows "fst (retry_loop rf L i st err s) \<noteq> Inl RequestTimeout"
  using assms
proof (induction "nat (L - i)" arbitrary: i st err s)
  case 0
  then show ?case by (auto simp: retry_loop_stop split: option.splits)
next
  case (Suc d)
  show ?case
  proof (cases "canTry st")
    case False
    with Suc.prems show ?thesis by (auto simp: retry_loop_stop split: option.splits)
  next
    case True
    from Suc.hyps(2) have lt: "i < L" by linarith
    have d: "d = nat (L - (i + 1))" using Suc.hyps(2) by linarith
    obtain a s' where rf: "rf s = (a, s')" by (cases "rf s")
    show ?thesis
      using rf Suc.hyps(1)[OF d]
      by (cases a) (auto simp: retry_loop_unfold[OF lt True])
  qed
qed


lemma timeout_inv_step:
  assumes "timeout_inv D tok F base w" and "request_with_token requestFn tok w = (a, w')"
  shows "timeout_inv D tok F base w'"
proof -
  obtain d outcome x' where rf: "requestFn tok (cancel_view w) (env w) = ((d, outcome), x')"
    by (cases "requestFn tok (cancel_view w) (env w)") auto
  from assms(1) obtain new where new: "calls w = base @ new"
    "\<forall>c \<in> set new. fst c = tok \<and> snd (snd c) = Some (D - fst (snd c))"
    by (auto simp: timeout_inv_def)
  from assms(1) have view: "cancel_view w = Some (D - now w)"
    by (auto simp: timeout_inv_def cancel_view_def)
  from assms(2) rf have w': "w' = elapse d (w\<lparr>calls := calls w @ [(tok, now w, cancel_view w)], env := x'\<rparr>)"
    by (simp add: request_with_token_def)
  have calls': "calls w' = base @ (new @ [(tok, now w, Some (D - now w))])"
    using new(1) view by (simp add: w' elapse_def split: timer_state.splits)
  have "\<forall>c \<in> set (new @ [(tok, now w, Some (D - now w))]). fst c = tok \<and> snd (snd c) = Some (D - fst (snd c))"
    using new(2) by auto
  with calls' have log: "\<exists>new. calls w' = base @ new \<and> (\<forall>c \<in> set new. fst c = tok \<and> snd (snd c) = Some (D - fst (snd c)))"
    by blast
  from assms(1) have "fresh w' = F"
    "(timer w' = Armed D \<and> \<not> cancel_requested w' \<and> now w' \<le> D) \<or> (timer w' = Fired \<and> cancel_requested w' \<and> D \<le> now w')"
    by (auto simp: timeout_inv_def w' elapse_def split: if_splits)
  with log show ?thesis unfolding timeout_inv_def by blast
qed

lemma timeout_inv_operation:
  "timeout_inv (now w + timeoutInMs) (fresh w) (Suc (fresh w)) (calls w)
     (snd (sendRequestWithRetry (request_with_token requestFn (fresh w)) L
            (setTimeout timeoutInMs (snd (new_source w)))))"
  unfolding sendRequestWithRetry_def
proof (rule retry_loop_invariant)
  show "timeout_inv (now w + timeoutInMs) (fresh w) (Suc (fresh w)) (calls w)
     (setTimeout timeoutInMs (snd (new_source w)))"
    by (simp add: timeout_inv_def setTimeout_def new_source_def)
next
  fix s a s'
  assume "timeout_inv (now w + timeoutInMs) (fresh w) (Suc (fresh w)) (calls w) s"
    "request_with_token requestFn (fresh w) s = (a, s')"
  then show "timeout_inv (now w + timeoutInMs) (fresh w) (Suc (fresh w)) (calls w) s'"
    by (rule timeout_inv_step)
qed

lemma sendRequestWithTimeout_unfold:
  "sendRequestWithTimeout requestFn timeoutInMs tryLimits w =
     (let op = sendRequestWithRetry (request_with_token requestFn (fresh w))
                 (case tryLimits of None \<Rightarrow> 1 | Some n \<Rightarrow> n)
                 (setTimeout timeoutInMs (snd (new_source w)))
      in case fst op of
           Inr res \<Rightarrow> (Inr res, clearTimeout (snd op))
         | Inl err \<Rightarrow> (if isCancel err then Inl RequestTimeout else Inl err, snd op))"
  by (auto simp: sendRequestWithTimeout_def new_source_def Let_def split: prod.splits sum.splits)

lemma timeout_inv_clearTimeout:
  "timeout_inv D tok F base w \<Longrightarrow>
     fresh (clearTimeout w) = F \<and> calls (clearTimeout w) = calls w \<and> now (clearTimeout w) = now w
     \<and> timer (clearTimeout w) \<noteq> Armed D"
  by (auto simp: timeout_inv_def clearTimeout_def split: timer_state.splits)

text \<open>
  Claim C7. In every call of \<open>sendRequestWithTimeout\<close>: each attempt made is handed the
  one token created by the call, and what it can observe of that token is the one
  deadline \<open>now + timeoutInMs\<close> fixed when the call started (the time left at the attempt's
  start, 0 once it has passed). The retried operation itself never fails with the timeout
  error; when it fails with a cancellation the call fails with the timeout error, any
  other error of the operation is rethrown as it is, and a response is returned as it is.
\<close>

theorem sendRequestWithTimeout_one_token:
  assumes run: "sendRequestWithTimeout requestFn timeoutInMs tryLimits w = (r, w')"
  shows "(\<exists>new. calls w' = calls w @ new
            \<and> (\<forall>c \<in> set new. fst c = fresh w
                   \<and> snd (snd c) = Some (now w + timeoutInMs - fst (snd c))))
       \<and> (let op = fst (sendRequestWithRetry (request_with_token requestFn (fresh w))
                         (case tryLimits of None \<Rightarrow> 1 | Some n \<Rightarrow> n)
                         (setTimeout timeoutInMs (snd (new_source w))))
          in op \<noteq> Inl RequestTimeout
           \<and> (\<forall>err. op = Inl err \<and> isCancel err \<longrightarrow> r = Inl RequestTimeout)
           \<and> (\<forall>err. op = Inl err \<and> \<not> isCancel err \<longrightarrow> r = Inl err)
           \<and> (\<forall>res. op = Inr res \<longrightarrow> r = Inr res))"
proof -
  let ?L = "case tryLimits of None \<Rightarrow> 1 | Some n \<Rightarrow> n"
  let ?op = "sendRequestWithRetry (request_with_token requestFn (fresh w)) ?L
                         (setTimeout timeoutInMs (snd (new_source w)))"
  note inv = timeout_inv_operation[of w timeoutInMs requestFn ?L]
  have nt: "fst ?op \<noteq> Inl RequestTimeout"
    unfolding sendRequestWithRetry_def by (rule retry_loop_not_timeout) simp
  from run have r: "r = (case fst ?op of Inr res \<Rightarrow> Inr res
      | Inl err \<Rightarrow> if isCancel err then Inl RequestTimeout else Inl err)"
    and w': "w' = (case fst ?op of Inr res \<Rightarrow> clearTimeout (snd ?op) | Inl err \<Rightarrow> snd ?op)"
    by (auto simp: sendRequestWithTimeout_unfold Let_def split: sum.splits)
  have "calls w' = calls (snd ?op)"
    using timeout_inv_clearTimeout[OF inv] by (simp add: w' split: sum.splits)
  with inv have log: "\<exists>new. calls w' = calls w @ new
            \<and> (\<forall>c \<in> set new. fst c = fresh w
                   \<and> snd (snd c) = Some (now w + timeoutInMs - fst (snd c)))"
    by (simp add: timeout_inv_def)
  from r nt log show ?thesis by (auto simp: Let_def split: sum.splits)
qed

theorem sendRequestWithTimeout_one_token_witness:
  "fst (sendRequestWithTimeout (cooperative 30 (respond 503)) 50 (Some 5) world0) = Inl RequestTimeout
   \<and> calls (snd (sendRequestWithTimeout (cooperative 30 (respond 503)) 50 (Some 5) world0))
       = [(0, 0, Some 50), (0, 30, Some 20), (0, 50, Some 0), (0, 50, Some 0), (0, 50, Some 0)]"
proof -
  obtain r w' where run:
    "sendRequestWithTimeout (cooperative 30 (respond 503)) 50 (Some 5) world0 = (r, w')"
    by (cases "sendRequestWithTimeout (cooperative 30 (respond 503)) 50 (Some 5) world0")
  have op: "sendRequestWithRetry (request_with_token (cooperative 30 (respond 503)) (fresh world0))
              5 (setTimeout 50 (snd (new_source world0)))
      = (Inl (Thrown \<lparr>is_cancel = True, response_status = None, reason = ()\<rparr>),
         \<lparr>now = 50, timer = Fired, cancel_requested = True,
          calls = [(0, 0, Some 50), (0, 30, Some 20), (0, 50, Some 0), (0, 50, Some 0), (0, 50, Some 0)],
          fresh = 1, env = ()\<rparr>)"
    by (simp add: new_source_def setTimeout_def sendRequestWithRetry_def
        retry_loop_unfold retry_loop_stop request_with_token_def cooperative_def respond_def
        world0_def cancel_view_def elapse_def cancellation_def)
  from sendRequestWithTimeout_one_token[OF run] have "r = Inl RequestTimeout"
    by (simp add: op Let_def)
  moreover from run have "w' = snd (sendRequestWithRetry
      (request_with_token (cooperative 30 (respond 503)) (fresh world0))
      5 (setTimeout 50 (snd (new_source world0))))"
    by (simp add: sendRequestWithTimeout_unfold op Let_def)
  ultimately show ?thesis using run by (simp add: op)
qed

text \<open>
  The timer after a call whose timer is due at \<open>D = now + timeoutInMs\<close>: after a returned
  response it is not armed any more; after a failure that came before \<open>D\<close> it is still
  armed, since the \<open>catch\<close> block does not call \<open>clearTimeout\<close>.
\<close>

lemma sendRequestWithTimeout_timer:
  assumes run: "sendRequestWithTimeout requestFn timeoutInMs tryLimits w = (r, w')"
  shows "(\<forall>res. r = Inr res \<longrightarrow> timer w' \<noteq> Armed (now w + timeoutInMs))
       \<and> (\<forall>e. r = Inl e \<and> now w' < now w + timeoutInMs \<longrightarrow> timer w' = Armed (now w + timeoutInMs))"
proof -
  let ?L = "case tryLimits of None \<Rightarrow> 1 | Some n \<Rightarrow> n"
  let ?op = "sendRequestWithRetry (request_with_token requestFn (fresh w)) ?L
                         (setTimeout timeoutInMs (snd (new_source w)))"
  note inv = timeout_inv_operation[of w timeoutInMs requestFn ?L]
  from run have r: "r = (case fst ?op of Inr res \<Rightarrow> Inr res
      | Inl err \<Rightarrow> if isCancel err then Inl RequestTimeout else Inl err)"
    and w': "w' = (case fst ?op of Inr res \<Rightarrow> clearTimeout (snd ?op) | Inl err \<Rightarrow> snd ?op)"
    by (auto simp: sendRequestWithTimeout_unfold Let_def split: sum.splits)
  show ?thesis
  proof (cases "fst ?op")
    case (Inr res)
    with r w' timeout_inv_clearTimeout[OF inv] show ?thesis by auto
  next
    case (Inl err)
    with r w' inv show ?thesis by (auto simp: timeout_inv_def)
  qed
qed

text \<open>
  Claim C6 fails on the failure path. One attempt that takes 10 ms and answers 404, under
  a timeout of 1000 ms: the call fails at time 10, well before the timer is due, and the
  timer is left armed for time 1000.
\<close>

theorem sendRequestWithTimeout_failure_leaves_timer_armed:
  "sendRequestWithTimeout (steady 10 (respond 404)) 1000 None world0
     = (Inl (HttpRequestFailed \<lparr>status = 404, data = ()\<rparr>),
        \<lparr>now = 10, timer = Armed 1000, cancel_requested = False,
         calls = [(0, 0, Some 1000)], fresh = 1, env = ()\<rparr>)"
  by (simp add: sendRequestWithTimeout_def new_source_def setTimeout_def sendRequestWithRetry_def
      retry_loop_unfold retry_loop_stop request_with_token_def steady_def respond_def world0_def
      cancel_view_def elapse_def)

section \<open>Properties of fileTreeAdd\<close>

lemma insert_at_skip_dot:
  "insert_at (filter (\<lambda>s. s \<noteq> ''.'') segs) f t = insert_at segs f t"
proof (induction segs arbitrary: t)
  case Nil
  show ?case by simp
next
  case (Cons seg segs)
  then have "insert_at (filter (\<lambda>s. s \<noteq> ''.'') segs) f = insert_at segs f"
    by (intro ext)
  then show ?case by (simp split: option.splits)
qed

lemma walkable_skip_dot:
  "walkable (filter (\<lambda>s. s \<noteq> ''.'') segs) t = walkable segs t"
  by (induction segs arbitrary: t) (auto split: option.splits)

lemma find_None_update_first: "find P xs = None \<Longrightarrow> update_first P f xs = xs"
  by (induction xs) (auto split: if_splits)

lemma find_Some_split:
  "find P xs = Some x \<Longrightarrow> \<exists>ys zs. xs = ys @ x # zs \<and> P x \<and> (\<forall>y \<in> set ys. \<not> P y)"
proof (induction xs)
  case Nil
  then show ?case by simp
next
  case (Cons a xs)
  show ?case
  proof (cases "P a")
    case True
    with Cons.prems have "a = x" by simp
    with True show ?thesis by (intro exI[of _ "[]"] exI[of _ xs]) simp
  next
    case False
    with Cons obtain ys zs where "xs = ys @ x # zs" "P x" "\<forall>y \<in> set ys. \<not> P y" by auto
    with False show ?thesis by (intro exI[of _ "a # ys"] exI[of _ zs]) simp
  qed
qed

lemma update_first_split:
  "P x \<Longrightarrow> \<forall>y \<in> set ys. \<not> P y \<Longrightarrow> update_first P f (ys @ x # zs) = ys @ f x # zs"
  by (induction ys) auto

lemma not_walkable_insert_at: "\<not> walkable segs t \<Longrightarrow> insert_at segs f t = t"
proof (induction segs arbitrary: t)
  case Nil
  then show ?case by (cases t) auto
next
  case (Cons seg segs)
  show ?case
  proof (cases "seg = ''.''")
    case True
    with Cons show ?thesis by simp
  next
    case False
    show ?thesis
    proof (cases "children t")
      case None
      with False show ?thesis by simp
    next
      case (Some cs)
      with False Cons.prems obtain child where child: "find (\<lambda>c. name c = seg) cs = Some child"
        "\<not> walkable segs child" by (auto split: option.splits)
      from find_Some_split[OF child(1)] obtain ys zs where
        cs: "cs = ys @ child # zs" "name child = seg" "\<forall>y \<in> set ys. name y \<noteq> seg" by auto
      have "update_first (\<lambda>c. name c = seg) (\<lambda>c. insert_at segs f c) cs = ys @ insert_at segs f child # zs"
        unfolding cs(1) by (rule update_first_split) (use cs in auto)
      with Cons.IH[OF child(2)] cs have "update_first (\<lambda>c. name c = seg) (\<lambda>c. insert_at segs f c) cs = cs"
        by simp
      with False Some child show ?thesis by (cases t) simp
    qed
  qed
qed

lemma name_insert_at [simp]: "name (insert_at segs f t) = name t"
  by (induction segs arbitrary: t) (auto split: option.splits)

lemma is_dir_insert_at [simp]: "is_dir (insert_at segs f t) = is_dir t"
  by (induction segs arbitrary: t) (auto simp: is_dir_def split: option.splits)

lemma file_paths_insert_at:
  "walkable segs t \<Longrightarrow>
     mset (file_paths (insert_at segs f t))
       = mset (file_paths t) + {# name t # filter (\<lambda>s. s \<noteq> ''.'') segs @ [f] #}"
proof (induction segs arbitrary: t)
  case Nil
  then show ?case by (cases t) auto
next
  case (Cons seg segs)
  show ?case
  proof (cases "seg = ''.''")
    case True
    with Cons show ?thesis by simp
  next
    case False
    from Cons.prems False obtain n cs where t: "t = Node n (Some cs)"
      by (cases t) (auto split: option.splits)
    show ?thesis
    proof (cases "find (\<lambda>c. name c = seg) cs")
      case None
      have w: "walkable segs (Node seg (Some []))" by (induction segs) auto
      from Cons.IH[OF w] False None t show ?thesis by simp
    next
      case (Some child)
      from find_Some_split[OF Some] obtain ys zs where
        cs: "cs = ys @ child # zs" "name child = seg" "\<forall>y \<in> set ys. name y \<noteq> seg" by auto
      have upd: "update_first (\<lambda>c. name c = seg) (\<lambda>c. insert_at segs f c) cs = ys @ insert_at segs f child # zs"
        unfolding cs(1) by (rule update_first_split) (use cs in auto)
      from Cons.prems False Some t have "walkable segs child" by simp
      from Cons.IH[OF this] False Some t upd cs show ?thesis by simp
    qed
  qed
qed


lemma find_None_iff_all: "find P xs = None \<longleftrightarrow> (\<forall>x \<in> set xs. \<not> P x)"
  by (induction xs) auto

lemma walkable_fresh_dir: "walkable segs (Node seg (Some []))"
  by (induction segs) auto

lemma dirs_distinct_insert_at:
  "dirs_distinct t \<Longrightarrow> dirs_distinct (insert_at segs f t)"
proof (induction segs arbitrary: t)
  case Nil
  then show ?case by (cases t) (auto simp: is_dir_def split: option.splits)
next
  case (Cons seg segs)
  show ?case
  proof (cases "seg = ''.''")
    case True
    with Cons show ?thesis by simp
  next
    case False
    show ?thesis
    proof (cases t)
      case (Node n kids)
      show ?thesis
      proof (cases kids)
        case None
        with Node False show ?thesis by simp
      next
        case (Some cs)
        show ?thesis
        proof (cases "find (\<lambda>c. name c = seg) cs")
          case None
          then have fresh: "\<forall>c \<in> set cs. name c \<noteq> seg" by (simp add: find_None_iff_all)
          have new: "dirs_distinct (insert_at segs f (Node seg (Some [])))"
            by (rule Cons.IH) simp
          from fresh have "seg \<notin> set (map name (filter is_dir cs))" by auto
          with Cons.prems new None False Node Some show ?thesis by auto
        next
          case (Some child)
          from find_Some_split[OF Some] obtain ys zs where
            cs: "cs = ys @ child # zs" "name child = seg" "\<forall>y \<in> set ys. name y \<noteq> seg" by auto
          have upd: "update_first (\<lambda>c. name c = seg) (\<lambda>c. insert_at segs f c) cs
              = ys @ insert_at segs f child # zs"
            unfolding cs(1) by (rule update_first_split) (use cs in auto)
          from Cons.prems Node \<open>kids = Some cs\<close> cs have "dirs_distinct child" by simp
          from Cons.IH[OF this] have "dirs_distinct (insert_at segs f child)" .
          with Cons.prems Node \<open>kids = Some cs\<close> Some False upd cs show ?thesis
            by auto
        qed
      qed
    qed
  qed
qed

lemma walkable_insert_at: "walkable segs t \<Longrightarrow> walkable segs (insert_at segs f t)"
proof (induction segs arbitrary: t)
  case Nil
  then show ?case by (cases t) auto
next
  case (Cons seg segs)
  show ?case
  proof (cases "seg = ''.''")
    case True
    with Cons show ?thesis by simp
  next
    case False
    from Cons.prems False obtain n cs where t: "t = Node n (Some cs)"
      by (cases t) (auto split: option.splits)
    show ?thesis
    proof (cases "find (\<lambda>c. name c = seg) cs")
      case None
      then have "\<forall>c \<in> set cs. name c \<noteq> seg" by (simp add: find_None_iff_all)
      then have "find (\<lambda>c. name c = seg) (cs @ [insert_at segs f (Node seg (Some []))])
          = Some (insert_at segs f (Node seg (Some [])))"
        by (induction cs) auto
      with Cons.IH[OF walkable_fresh_dir] False None t show ?thesis by simp
    next
      case (Some child)
      from find_Some_split[OF Some] obtain ys zs where
        cs: "cs = ys @ child # zs" "name child = seg" "\<forall>y \<in> set ys. name y \<noteq> seg" by auto
      have upd: "update_first (\<lambda>c. name c = seg) (\<lambda>c. insert_at segs f c) cs
          = ys @ insert_at segs f child # zs"
        unfolding cs(1) by (rule update_first_split) (use cs in auto)
      have "find (\<lambda>c. name c = seg) (ys @ insert_at segs f child # zs) = Some (insert_at segs f child)"
        using cs(2,3) by (induction ys) auto
      moreover from Cons.prems False Some t have "walkable segs child" by simp
      ultimately show ?thesis using Cons.IH[of child] False Some t upd by simp
    qed
  qed
qed

lemma dirs_distinct_foldl:
  "dirs_distinct t \<Longrightarrow> dirs_distinct (foldl (\<lambda>t p. fileTreeAdd t p (fp p)) t ps)"
  by (induction ps arbitrary: t) (auto simp: fileTreeAdd_def dirs_distinct_insert_at)

text \<open>
  Claim C5, as amended. One insertion \<open>fileTreeAdd(root, relativePath, filePath)\<close> into any
  tree, with \<open>segs\<close> the directory segments of \<open>relativePath\<close> other than \<open>"."\<close>:
  \<^item> the segments \<open>"."\<close> are skipped: the result is that of walking \<open>segs\<close> alone;
  \<^item> no list of children gets a second directory of a name it already has a directory for
    (an existing child of that name is reused), for one insertion into any tree and for
    every sequence of insertions from an empty root;
  \<^item> when the walk along \<open>segs\<close> stays on nodes that have a list of children, the files of the
    tree afterwards are those before and one new file at \<open>segs\<close> followed by the file name (so
    the directories on the way exist afterwards), and inserting the same path once more
    adds a second, identical entry.
\<close>

theorem fileTreeAdd_insertion:
  "(let segs = filter (\<lambda>s. s \<noteq> ''.'') (split_on (CHR ''/'') (dirname relativePath));
        leaf = name root # segs @ [basename relativePath]
    in fileTreeAdd root relativePath filePath = insert_at segs (basename relativePath) root
       \<and> (dirs_distinct root \<longrightarrow> dirs_distinct (fileTreeAdd root relativePath filePath))
       \<and> dirs_distinct (foldl (\<lambda>t p. fileTreeAdd t p (fp p)) (Node n (Some [])) ps)
       \<and> (walkable segs root \<longrightarrow>
            mset (file_paths (fileTreeAdd root relativePath filePath))
              = mset (file_paths root) + {# leaf #}
          \<and> mset (file_paths (fileTreeAdd (fileTreeAdd root relativePath filePath) relativePath filePath'))
              = mset (file_paths root) + {# leaf, leaf #}))"
proof -
  let ?raw = "split_on (CHR ''/'') (dirname relativePath)"
  let ?segs = "filter (\<lambda>s. s \<noteq> ''.'') ?raw"
  let ?f = "basename relativePath"
  have a: "fileTreeAdd root relativePath filePath = insert_at ?segs ?f root"
    and a': "\<And>t fp. fileTreeAdd t relativePath fp = insert_at ?raw ?f t"
    by (simp_all add: fileTreeAdd_def insert_at_skip_dot)
  have b: "dirs_distinct root \<longrightarrow> dirs_distinct (fileTreeAdd root relativePath filePath)"
    by (simp add: a dirs_distinct_insert_at)
  have c: "dirs_distinct (foldl (\<lambda>t p. fileTreeAdd t p (fp p)) (Node n (Some [])) ps)"
    by (rule dirs_distinct_foldl) simp
  have d: "walkable ?segs root \<longrightarrow>
            mset (file_paths (fileTreeAdd root relativePath filePath))
              = mset (file_paths root) + {# name root # ?segs @ [?f] #}
          \<and> mset (file_paths (fileTreeAdd (fileTreeAdd root relativePath filePath) relativePath filePath'))
              = mset (file_paths root) + {# name root # ?segs @ [?f], name root # ?segs @ [?f] #}"
  proof
    assume "walkable ?segs root"
    then have w: "walkable ?raw root" by (simp add: walkable_skip_dot)
    from file_paths_insert_at[OF w, of ?f]
    have 1: "mset (file_paths (insert_at ?raw ?f root))
        = mset (file_paths root) + {# name root # ?segs @ [?f] #}" by simp
    from file_paths_insert_at[OF walkable_insert_at[OF w, of ?f], of ?f] 1
    have 2: "mset (file_paths (insert_at ?raw ?f (insert_at ?raw ?f root)))
        = mset (file_paths root) + {# name root # ?segs @ [?f], name root # ?segs @ [?f] #}"
      by simp
    from 1 2 show "mset (file_paths (fileTreeAdd root relativePath filePath))
              = mset (file_paths root) + {# name root # ?segs @ [?f] #}
          \<and> mset (file_paths (fileTreeAdd (fileTreeAdd root relativePath filePath) relativePath filePath'))
              = mset (file_paths root) + {# name root # ?segs @ [?f], name root # ?segs @ [?f] #}"
      by (simp add: a')
  qed
  from a b c d show ?thesis unfolding Let_def by blast
qed

lemma dirname_basename_example:
  "dirname ''./a/b.txt'' = ''./a'' \<and> basename ''./a/b.txt'' = ''b.txt''
   \<and> split_on (CHR ''/'') ''./a'' = [''.'', ''a'']"
  by (simp add: dirname_def basename_def strip_trailing_slashes_def)

theorem fileTreeAdd_insertion_witness:
  "dirs_distinct (Node ''s'' (Some [Node ''a'' (Some [Node ''b.txt'' None])]))
   \<and> walkable [''a''] (Node ''s'' (Some [Node ''a'' (Some [Node ''b.txt'' None])]))
   \<and> fileTreeAdd (Node ''s'' (Some [Node ''a'' (Some [Node ''b.txt'' None])])) ''./a/b.txt'' ''/tmp/s/a/b.txt''
       = Node ''s'' (Some [Node ''a'' (Some [Node ''b.txt'' None, Node ''b.txt'' None])])
   \<and> dirs_distinct (fileTreeAdd (Node ''s'' (Some [Node ''a'' (Some [Node ''b.txt'' None])]))
         ''./a/b.txt'' ''/tmp/s/a/b.txt'')
   \<and> mset (file_paths (fileTreeAdd (Node ''s'' (Some [Node ''a'' (Some [Node ''b.txt'' None])]))
         ''./a/b.txt'' ''/tmp/s/a/b.txt''))
       = {# [''s'', ''a'', ''b.txt''], [''s'', ''a'', ''b.txt''] #}"
proof -
  let ?root = "Node ''s'' (Some [Node ''a'' (Some [Node ''b.txt'' None])])"
  have dd: "dirs_distinct ?root" by (simp add: is_dir_def)
  have w: "walkable [''a''] ?root" by simp
  note ins = fileTreeAdd_insertion[of "''./a/b.txt''" ?root "''/tmp/s/a/b.txt''", unfolded Let_def]
  from ins have eq: "fileTreeAdd ?root ''./a/b.txt'' ''/tmp/s/a/b.txt''
      = Node ''s'' (Some [Node ''a'' (Some [Node ''b.txt'' None, Node ''b.txt'' None])])"
    by (simp add: dirname_basename_example)
  from ins dd have dd': "dirs_distinct (fileTreeAdd ?root ''./a/b.txt'' ''/tmp/s/a/b.txt'')"
    by blast
  from ins w have "mset (file_paths (fileTreeAdd ?root ''./a/b.txt'' ''/tmp/s/a/b.txt''))
      = mset (file_paths ?root) + {# [''s'', ''a'', ''b.txt''] #}"
    by (simp add: dirname_basename_example)
  then have ms: "mset (file_paths (fileTreeAdd ?root ''./a/b.txt'' ''/tmp/s/a/b.txt''))
      = {# [''s'', ''a'', ''b.txt''], [''s'', ''a'', ''b.txt''] #}"
    by simp
  from dd w eq dd' ms show ?thesis by blast
qed

text \<open>
  Claim C5 as stated fails where a directory segment names a child that is a file: after
  the file \<open>a\<close> was inserted, inserting \<open>a/b.txt\<close> takes the file node \<open>a\<close> for the parent,
  whose \<open>children\<close> is undefined, and \<open>parent.children?.push\<close> appends nothing.
\<close>

theorem fileTreeAdd_leaf_dropped_counterexample:
  "fileTreeAdd (Node ''s'' (Some [])) ''a'' ''/tmp/a'' = Node ''s'' (Some [Node ''a'' None])
   \<and> fileTreeAdd (Node ''s'' (Some [Node ''a'' None])) ''a/b.txt'' ''/tmp/a/b.txt''
       = Node ''s'' (Some [Node ''a'' None])"
  by (simp add: fileTreeAdd_def dirname_def basename_def strip_trailing_slashes_def)

section \<open>Properties of runWithLimitedConcurrency\<close>

lemma notify_fields [simp]:
  "queue (notify i out w) = queue w" "tasks (notify i out w) = tasks w"
  "shared (notify i out w) = shared w"
  by (auto simp: notify_def split: control.splits option.splits sum.splits)

lemma queue_inv_notify [simp]: "queue_inv items (notify i out w) = queue_inv items w"
  by (simp add: queue_inv_def)

lemma queue_inv_start: "queue_inv items (start_run st)"
  by (simp add: queue_inv_def start_run_def)

lemma queue_inv_advance:
  assumes "queue_inv items w"
  shows "queue_inv items (advance items callback L w)"
proof (cases "control w = Dispatching \<and> length (tasks w) < length items")
  case False
  then have "queue (advance items callback L w) = queue w \<and> tasks (advance items callback L w) = tasks w"
    by (auto simp: advance_def split: control.splits option.splits sum.splits)
  with assms show ?thesis by (simp add: queue_inv_def)
next
  case True
  obtain r st' where inv: "invoke callback (items ! length (tasks w)) (shared w) = (r, st')"
    by (cases "invoke callback (items ! length (tasks w)) (shared w)")
  let ?t = "case r of Inl l \<Rightarrow> Running l | Inr out \<Rightarrow> Settled out"
  from True inv have q: "queue (advance items callback L w) = queue w @ [length (tasks w)]"
    and t: "tasks (advance items callback L w) = tasks w @ [?t]"
    by (auto simp: advance_def Let_def)
  have nt: "?t \<noteq> Reacted (Inr ())" by (cases r) auto
  from assms have fresh: "length (tasks w) \<notin> set (queue w)" by (auto simp: queue_inv_def)
  show ?thesis
    unfolding queue_inv_def q t
  proof (intro conjI allI)
    show "distinct (queue w @ [length (tasks w)])" using assms fresh by (simp add: queue_inv_def)
    show "length (tasks w @ [?t]) \<le> length items" using True by simp
    fix i
    from assms have qi: "i \<in> set (queue w) \<longleftrightarrow> i < length (tasks w) \<and> tasks w ! i \<noteq> Reacted (Inr ())"
      unfolding queue_inv_def by blast
    consider "i < length (tasks w)" | "i = length (tasks w)" | "length (tasks w) < i" by linarith
    then show "i \<in> set (queue w @ [length (tasks w)]) \<longleftrightarrow>
        i < length (tasks w @ [?t]) \<and> (tasks w @ [?t]) ! i \<noteq> Reacted (Inr ())"
    proof cases
      case 1
      then show ?thesis using qi by (simp add: nth_append)
    next
      case 2
      then show ?thesis using nt by simp
    next
      case 3
      then show ?thesis using qi by simp
    qed
  qed
qed

lemma queue_inv_deliver:
  assumes "queue_inv items w"
  shows "queue_inv items (deliver callback i ev w)"
proof (cases "i < length (tasks w) \<and> is_running (tasks w ! i)")
  case False
  then have "deliver callback i ev w = w"
    by (auto simp: deliver_def is_running_def split: task.splits)
  with assms show ?thesis by simp
next
  case True
  then obtain l where l: "tasks w ! i = Running l" by (auto simp: is_running_def split: task.splits)
  obtain r st' where res: "resume callback l ev (shared w) = (r, st')"
    by (cases "resume callback l ev (shared w)")
  let ?t = "case r of Inl l' \<Rightarrow> Running l' | Inr out \<Rightarrow> Settled out"
  from True l res have q: "queue (deliver callback i ev w) = queue w"
    and t: "tasks (deliver callback i ev w) = (tasks w)[i := ?t]"
    by (auto simp: deliver_def)
  have nt: "?t \<noteq> Reacted (Inr ())" by (cases r) auto
  show ?thesis
    unfolding queue_inv_def q t
    using assms nt l True by (auto simp: queue_inv_def nth_list_update)
qed

lemma queue_inv_react:
  assumes "queue_inv items w"
  shows "queue_inv items (react i w)"
proof (cases "i < length (tasks w)")
  case False
  then show ?thesis using assms by (simp add: react_def)
next
  case True
  show ?thesis
  proof (cases "tasks w ! i")
    case (Running l)
    with True assms show ?thesis by (simp add: react_def)
  next
    case (Reacted out)
    with True assms show ?thesis by (simp add: react_def)
  next
    case (Settled out)
    show ?thesis
    proof (cases out)
      case (Inl e)
      with Settled True have "react i w = notify i (Inl e) (w\<lparr>tasks := (tasks w)[i := Reacted (Inl e)]\<rparr>)"
        by (simp add: react_def)
      moreover have "queue_inv items (w\<lparr>tasks := (tasks w)[i := Reacted (Inl e)]\<rparr>)"
        using assms Settled True by (auto simp: queue_inv_def nth_list_update)
      ultimately show ?thesis by simp
    next
      case (Inr u)
      with Settled True have r: "react i w = notify i (Inr ())
          (w\<lparr>queue := splice_out i (queue w), tasks := (tasks w)[i := Reacted (Inr ())]\<rparr>)"
        by (simp add: react_def)
      from assms Settled True have mem: "i \<in> set (queue w)" by (auto simp: queue_inv_def)
      then have sp: "splice_out i (queue w) = remove1 i (queue w)" by (simp add: splice_out_def)
      have "queue_inv items (w\<lparr>queue := remove1 i (queue w), tasks := (tasks w)[i := Reacted (Inr ())]\<rparr>)"
        using assms True by (auto simp: queue_inv_def nth_list_update)
      with r sp show ?thesis by simp
    qed
  qed
qed

lemma queue_inv_step: "queue_inv items w \<Longrightarrow> queue_inv items (step items callback L ev w)"
  by (cases ev) (simp_all add: queue_inv_advance queue_inv_deliver queue_inv_react)

lemma foldl_invariant:
  assumes "P w" and "\<And>w ev. P w \<Longrightarrow> P (f w ev)"
  shows "P (foldl f w evs)"
  using assms(1) by (induction evs arbitrary: w) (auto intro: assms(2))

lemma queue_inv_run: "queue_inv items (runWithLimitedConcurrency items callback L schedule st)"
  unfolding runWithLimitedConcurrency_def
  by (rule foldl_invariant) (auto intro: queue_inv_start queue_inv_step)

lemma in_flight_le_queue:
  assumes "queue_inv items w"
  shows "in_flight w \<le> length (queue w)"
proof -
  have "in_flight w = card {i. i < length (tasks w) \<and> is_running (tasks w ! i)}"
    by (simp add: in_flight_def length_filter_conv_card)
  also have "\<dots> \<le> card (set (queue w))"
  proof (rule card_mono)
    show "finite (set (queue w))" by simp
    show "{i. i < length (tasks w) \<and> is_running (tasks w ! i)} \<subseteq> set (queue w)"
    proof
      fix i assume "i \<in> {i. i < length (tasks w) \<and> is_running (tasks w ! i)}"
      then have "i < length (tasks w)" "tasks w ! i \<noteq> Reacted (Inr ())"
        by (auto simp: is_running_def)
      with assms show "i \<in> set (queue w)" unfolding queue_inv_def by blast
    qed
  qed
  also have "\<dots> = length (queue w)" using assms by (simp add: queue_inv_def distinct_card)
  finally show ?thesis .
qed

lemma p_state_Some_iff: "p_state ts j = Some out \<longleftrightarrow> j < length ts \<and> ts ! j = Reacted out"
  by (auto simp: p_state_def split: task.splits)

lemma p_state_update:
  "p_state (ts[i := t]) j =
     (if j = i \<and> i < length ts then (case t of Reacted out \<Rightarrow> Some out | _ \<Rightarrow> None) else p_state ts j)"
  by (auto simp: p_state_def nth_list_update split: task.splits)

lemma p_state_append:
  "p_state (ts @ [t]) j =
     (if j = length ts then (case t of Reacted out \<Rightarrow> Some out | _ \<Rightarrow> None) else p_state ts j)"
  by (auto simp: p_state_def nth_append split: task.splits)

lemma race_of_None_iff: "race_of ts ps = None \<longleftrightarrow> (\<forall>j \<in> set ps. p_state ts j = None)"
  by (induction ps) (auto split: option.splits)

lemma race_of_SomeD: "race_of ts ps = Some out \<Longrightarrow> \<exists>j \<in> set ps. p_state ts j = Some out"
  by (induction ps) (auto split: option.splits)

lemma first_rejected_None_iff:
  "first_rejected ts ps = None \<longleftrightarrow> (\<forall>j \<in> set ps. \<forall>e. p_state ts j \<noteq> Some (Inl e))"
  by (induction ps) (auto split: option.splits sum.splits)

lemma first_rejected_SomeD:
  "first_rejected ts ps = Some e \<Longrightarrow> \<exists>j \<in> set ps. p_state ts j = Some (Inl e)"
  by (induction ps) (auto split: option.splits sum.splits)

lemma queue_not_fulfilled:
  "queue_inv items w \<Longrightarrow> j \<in> set (queue w) \<Longrightarrow> p_state (tasks w) j \<noteq> Some (Inr ())"
  by (auto simp: queue_inv_def p_state_Some_iff)

lemma all_fulfilled_queue_empty:
  assumes "queue_inv items w" "set (queue w) \<subseteq> set ps"
    "list_all (\<lambda>j. p_state (tasks w) j = Some (Inr ())) ps"
  shows "queue w = []"
proof (rule ccontr)
  assume "queue w \<noteq> []"
  then obtain j where j: "j \<in> set (queue w)" by (cases "queue w") auto
  with assms(2,3) have "p_state (tasks w) j = Some (Inr ())" by (auto simp: list_all_iff)
  with queue_not_fulfilled[OF assms(1) j] show False by simp
qed

lemma control_inv_start: "control_inv items L (start_run st)"
  by (simp add: control_inv_def start_run_def)

lemma control_ok_cong:
  "length ts' = length ts \<Longrightarrow> (\<And>j. p_state ts' j = p_state ts j) \<Longrightarrow>
     control_ok n q ts' L c = control_ok n q ts L c"
  by (cases "(n, q, ts, L, c)" rule: control_ok.cases) auto

lemma control_ok_queue_bound: "control_ok n q ts L c \<Longrightarrow> int (length q) \<le> max L 1"
  by (cases "(n, q, ts, L, c)" rule: control_ok.cases) auto

lemma p_state_update_pending:
  assumes "p_state ts i = None" and "\<And>out. t \<noteq> Reacted out"
  shows "p_state (ts[i := t]) j = p_state ts j"
proof (cases "j = i \<and> i < length ts")
  case True
  with assms show ?thesis by (cases t) (auto simp: p_state_update)
next
  case False
  then show ?thesis by (auto simp: p_state_update)
qed

lemma deliver_tasks:
  "tasks (deliver callback i ev w) = tasks w
   \<or> (\<exists>t. (\<forall>out. t \<noteq> Reacted out) \<and> p_state (tasks w) i = None
          \<and> tasks (deliver callback i ev w) = (tasks w)[i := t])"
proof (cases "i < length (tasks w)")
  case False
  then show ?thesis by (simp add: deliver_def)
next
  case True
  show ?thesis
  proof (cases "tasks w ! i")
    case (Running l)
    obtain r st' where res: "resume callback l ev (shared w) = (r, st')"
      by (cases "resume callback l ev (shared w)")
    let ?t = "case r of Inl l' \<Rightarrow> Running l' | Inr out \<Rightarrow> Settled out"
    have "\<forall>out. ?t \<noteq> Reacted out" by (cases r) auto
    moreover have "p_state (tasks w) i = None" using Running True by (simp add: p_state_def)
    moreover have "tasks (deliver callback i ev w) = (tasks w)[i := ?t]"
      using True Running res by (simp add: deliver_def)
    ultimately show ?thesis by blast
  next
    case (Settled out)
    with True show ?thesis by (simp add: deliver_def)
  next
    case (Reacted out)
    with True show ?thesis by (simp add: deliver_def)
  qed
qed

lemma deliver_fields:
  "queue (deliver callback i ev w) = queue w"
  "control (deliver callback i ev w) = control w"
  "length (tasks (deliver callback i ev w)) = length (tasks w)"
  "p_state (tasks (deliver callback i ev w)) j = p_state (tasks w) j"
proof -
  show "queue (deliver callback i ev w) = queue w" "control (deliver callback i ev w) = control w"
    by (auto simp: deliver_def split: task.splits prod.splits)
  from deliver_tasks[of callback i ev w]
  show "length (tasks (deliver callback i ev w)) = length (tasks w)" by auto
  from deliver_tasks[of callback i ev w]
  show "p_state (tasks (deliver callback i ev w)) j = p_state (tasks w) j"
    by (auto simp: p_state_update_pending)
qed

lemma control_inv_deliver:
  "control_inv items L (deliver callback i ev w) = control_inv items L w"
  unfolding control_inv_def deliver_fields
  by (rule control_ok_cong) (simp_all add: deliver_fields)

lemma control_notify:
  "control (notify i out w) =
     (case control w of
        AwaitingRace ps None \<Rightarrow>
          if i \<in> set ps then AwaitingRace ps (Some out) else AwaitingRace ps None
      | AwaitingAll ps None \<Rightarrow>
          if i \<in> set ps then
            (case out of
               Inl e \<Rightarrow> AwaitingAll ps (Some (Inl e))
             | Inr u \<Rightarrow>
                 if list_all (\<lambda>j. p_state (tasks w) j = Some (Inr ())) ps
                 then AwaitingAll ps (Some (Inr ())) else AwaitingAll ps None)
          else AwaitingAll ps None
      | c \<Rightarrow> c)"
  by (auto simp: notify_def split: control.splits option.splits sum.splits)

lemma control_ok_reject:
  assumes ok: "control_ok n q ts L c" and pend: "p_state ts i = None" and i: "i < length ts"
  shows "control_ok n q (ts[i := Reacted (Inl e)]) L
           (case c of
              AwaitingRace ps None \<Rightarrow>
                if i \<in> set ps then AwaitingRace ps (Some (Inl e)) else AwaitingRace ps None
            | AwaitingAll ps None \<Rightarrow>
                if i \<in> set ps then AwaitingAll ps (Some (Inl e)) else AwaitingAll ps None
            | c \<Rightarrow> c)"
proof -
  let ?ts = "ts[i := Reacted (Inl e)]"
  have self: "p_state ?ts i = Some (Inl e)" using i by (simp add: p_state_update)
  have other: "\<And>j. j \<noteq> i \<Longrightarrow> p_state ?ts j = p_state ts j" by (simp add: p_state_update)
  have keep: "\<And>e'. \<exists>j. p_state ts j = Some (Inl e') \<Longrightarrow> \<exists>j. p_state ?ts j = Some (Inl e')"
  proof -
    fix e' assume "\<exists>j. p_state ts j = Some (Inl e')"
    then obtain j where j: "p_state ts j = Some (Inl e')" by blast
    with pend have "j \<noteq> i" by auto
    then have "p_state ?ts j = Some (Inl e')" using other[of j] j by simp
    then show "\<exists>j. p_state ?ts j = Some (Inl e')" by (rule exI)
  qed
  show ?thesis
  proof (cases "(n, q, ts, L, c)" rule: control_ok.cases)
    case (1 n q ts L)
    with ok show ?thesis by simp
  next
    case (2 n' q' ts' L' ps)
    with ok self other show ?thesis by (auto simp: p_state_update)
  next
    case (3 n' q' ts' L' ps e')
    with ok keep[of e'] show ?thesis by simp
  next
    case (4 n' q' ts' L' ps u)
    with ok show ?thesis by simp
  next
    case (5 n' q' ts' L' ps)
    with ok self other show ?thesis by (auto simp: p_state_update)
  next
    case (6 n' q' ts' L' ps e')
    with ok keep[of e'] show ?thesis by simp
  next
    case (7 n' q' ts' L' ps u)
    with ok show ?thesis by simp
  next
    case (8 n' q' ts' L')
    with ok show ?thesis by simp
  next
    case (9 n' q' ts' L' e')
    with ok keep[of e'] show ?thesis by simp
  qed
qed

lemma control_ok_fulfil:
  assumes ok: "control_ok n q ts L c" and pend: "p_state ts i = None" and i: "i < length ts"
    and mem: "i \<in> set q"
    and q': "\<forall>j \<in> set (remove1 i q). p_state (ts[i := Reacted (Inr ())]) j \<noteq> Some (Inr ())"
  shows "control_ok n (remove1 i q) (ts[i := Reacted (Inr ())]) L
           (case c of
              AwaitingRace ps None \<Rightarrow>
                if i \<in> set ps then AwaitingRace ps (Some (Inr ())) else AwaitingRace ps None
            | AwaitingAll ps None \<Rightarrow>
                if i \<in> set ps then
                  (if list_all (\<lambda>j. p_state (ts[i := Reacted (Inr ())]) j = Some (Inr ())) ps
                   then AwaitingAll ps (Some (Inr ())) else AwaitingAll ps None)
                else AwaitingAll ps None
            | c \<Rightarrow> c)"
proof -
  let ?ts = "ts[i := Reacted (Inr ())]"
  let ?q = "remove1 i q"
  have self: "p_state ?ts i = Some (Inr ())" using i by (simp add: p_state_update)
  have other: "\<And>j. j \<noteq> i \<Longrightarrow> p_state ?ts j = p_state ts j" by (simp add: p_state_update)
  have len: "length ?q = length q - 1" "1 \<le> length q" using mem
    by (auto simp: length_remove1 intro: Suc_leI length_pos_if_in_set)
  have sub: "set ?q \<subseteq> set q" by (rule set_remove1_subset)
  have keep: "\<And>e'. \<exists>j. p_state ts j = Some (Inl e') \<Longrightarrow> \<exists>j. p_state ?ts j = Some (Inl e')"
  proof -
    fix e' assume "\<exists>j. p_state ts j = Some (Inl e')"
    then obtain j where j: "p_state ts j = Some (Inl e')" by blast
    with pend have "j \<noteq> i" by auto
    then have "p_state ?ts j = Some (Inl e')" using other[of j] j by simp
    then show "\<exists>j. p_state ?ts j = Some (Inl e')" by (rule exI)
  qed
  show ?thesis
  proof (cases "(n, q, ts, L, c)" rule: control_ok.cases)
    case (1 n q ts L)
    with ok len show ?thesis by auto
  next
    case (2 n' q' ts' L' ps)
    with ok self other len show ?thesis by (auto simp: p_state_update)
  next
    case (3 n' q' ts' L' ps e')
    with ok keep[of e'] len show ?thesis by auto
  next
    case (4 n' q' ts' L' ps u)
    with ok len show ?thesis by auto
  next
    case (5 n' q' ts' L' ps)
    then have c: "c = AwaitingAll ps None" by simp
    from ok c have base: "length ts = n" "int (length q) < max L 1" "set q \<subseteq> set ps"
      "\<forall>j \<in> set ps. \<forall>e. p_state ts j \<noteq> Some (Inl e)" "\<exists>j \<in> set ps. p_state ts j = None"
      "\<forall>j \<in> set ps. j < length ts"
      by auto
    have norej: "\<forall>j \<in> set ps. \<forall>e. p_state ?ts j \<noteq> Some (Inl e)"
      using base(4) self other by (metis Inl_Inr_False option.inject)
    show ?thesis
    proof (cases "i \<in> set ps")
      case False
      from base(5) obtain j where "j \<in> set ps" "p_state ts j = None" by blast
      with False other[of j] have "\<exists>j \<in> set ps. p_state ?ts j = None" by auto
      with False c base norej len sub show ?thesis by auto
    next
      case True
      show ?thesis
      proof (cases "list_all (\<lambda>j. p_state ?ts j = Some (Inr ())) ps")
        case all: True
        have "?q = []"
        proof (rule ccontr)
          assume "?q \<noteq> []"
          then obtain j where j: "j \<in> set ?q" by (cases ?q) auto
          with sub base(3) all have "p_state ?ts j = Some (Inr ())" by (auto simp: list_all_iff)
          with q' j show False by blast
        qed
        with True all c base show ?thesis by simp
      next
        case notall: False
        then obtain j where j: "j \<in> set ps" "p_state ?ts j \<noteq> Some (Inr ())"
          by (auto simp: list_all_iff)
        with norej have "p_state ?ts j = None"
          by (cases "p_state ?ts j") (auto, metis old.unit.exhaust sum.exhaust_sel sum.collapse)
        with j have "\<exists>j \<in> set ps. p_state ?ts j = None" by blast
        with True notall c base norej len sub show ?thesis by auto
      qed
    qed
  next
    case (6 n' q' ts' L' ps e')
    with ok keep[of e'] len show ?thesis by auto
  next
    case (7 n' q' ts' L' ps u)
    with ok mem show ?thesis by simp
  next
    case (8 n' q' ts' L')
    with ok mem show ?thesis by simp
  next
    case (9 n' q' ts' L' e')
    with ok keep[of e'] len show ?thesis by auto
  qed
qed

lemma control_inv_react:
  assumes qi: "queue_inv items w" and ci: "control_inv items L w"
  shows "control_inv items L (react i w)"
proof (cases "i < length (tasks w)")
  case False
  then show ?thesis using ci by (simp add: react_def)
next
  case True
  show ?thesis
  proof (cases "tasks w ! i")
    case (Running l)
    with True ci show ?thesis by (simp add: react_def)
  next
    case (Reacted out)
    with True ci show ?thesis by (simp add: react_def)
  next
    case (Settled out)
    with True have pend: "p_state (tasks w) i = None" by (simp add: p_state_def)
    from ci have ok: "control_ok (length items) (queue w) (tasks w) L (control w)"
      by (simp add: control_inv_def)
    show ?thesis
    proof (cases out)
      case (Inl e)
      with Settled True have r: "react i w = notify i (Inl e) (w\<lparr>tasks := (tasks w)[i := Reacted (Inl e)]\<rparr>)"
        by (simp add: react_def)
      have c: "control (react i w) =
          (case control w of
              AwaitingRace ps None \<Rightarrow>
                if i \<in> set ps then AwaitingRace ps (Some (Inl e)) else AwaitingRace ps None
            | AwaitingAll ps None \<Rightarrow>
                if i \<in> set ps then AwaitingAll ps (Some (Inl e)) else AwaitingAll ps None
            | c \<Rightarrow> c)"
        unfolding r control_notify by (simp split: control.splits option.splits)
      from control_ok_reject[OF ok pend True, of e] show ?thesis
        unfolding control_inv_def c by (simp add: r)
    next
      case (Inr u)
      with Settled True have r: "react i w = notify i (Inr ())
          (w\<lparr>queue := splice_out i (queue w), tasks := (tasks w)[i := Reacted (Inr ())]\<rparr>)"
        by (simp add: react_def)
      from qi Settled True have mem: "i \<in> set (queue w)" by (auto simp: queue_inv_def)
      then have sp: "splice_out i (queue w) = remove1 i (queue w)" by (simp add: splice_out_def)
      have c: "control (react i w) =
          (case control w of
              AwaitingRace ps None \<Rightarrow>
                if i \<in> set ps then AwaitingRace ps (Some (Inr ())) else AwaitingRace ps None
            | AwaitingAll ps None \<Rightarrow>
                if i \<in> set ps then
                  (if list_all (\<lambda>j. p_state ((tasks w)[i := Reacted (Inr ())]) j = Some (Inr ())) ps
                   then AwaitingAll ps (Some (Inr ())) else AwaitingAll ps None)
                else AwaitingAll ps None
            | c \<Rightarrow> c)"
        unfolding r control_notify by (simp split: control.splits option.splits)
      have qt: "queue (react i w) = remove1 i (queue w)"
        "tasks (react i w) = (tasks w)[i := Reacted (Inr ())]"
        by (simp_all add: r sp)
      from queue_inv_react[OF qi, of i]
      have q': "\<forall>j \<in> set (remove1 i (queue w)).
          p_state ((tasks w)[i := Reacted (Inr ())]) j \<noteq> Some (Inr ())"
        using queue_not_fulfilled[of items "react i w"] by (simp add: qt)
      from control_ok_fulfil[OF ok pend True mem q'] show ?thesis
        unfolding control_inv_def c qt .
    qed
  qed
qed

lemma control_inv_advance:
  assumes qi: "queue_inv items w" and ci: "control_inv items L w"
  shows "control_inv items L (advance items callback L w)"
proof -
  note qi' = queue_inv_advance[OF qi, of callback L]
  from ci have ok: "control_ok (length items) (queue w) (tasks w) L (control w)"
    by (simp add: control_inv_def)
  show ?thesis
  proof (cases "control w")
    case Dispatching
    with ok have bound: "int (length (queue w)) < max L 1" by simp
    show ?thesis
    proof (cases "length (tasks w) < length items")
      case True
      obtain r st' where inv: "invoke callback (items ! length (tasks w)) (shared w) = (r, st')"
        by (cases "invoke callback (items ! length (tasks w)) (shared w)")
      let ?t = "case r of Inl l \<Rightarrow> Running l | Inr out \<Rightarrow> Settled out"
      let ?q = "queue w @ [length (tasks w)]"
      let ?ts = "tasks w @ [?t]"
      from Dispatching True inv have q: "queue (advance items callback L w) = ?q"
        and t: "tasks (advance items callback L w) = ?ts"
        and c: "control (advance items callback L w) =
          (if int (length ?q) \<ge> L then AwaitingRace ?q (race_of ?ts ?q) else Dispatching)"
        by (auto simp: advance_def Let_def)
      show ?thesis
      proof (cases "int (length ?q) \<ge> L")
        case False
        with bound show ?thesis unfolding control_inv_def q t c by simp
      next
        case ge: True
        show ?thesis
        proof (cases "race_of ?ts ?q")
          case None
          then have rn: "\<forall>j \<in> set ?q. p_state ?ts j = None" by (simp only: race_of_None_iff)
          from qi' have valid: "\<forall>j \<in> set ?q. j < length ?ts"
            unfolding queue_inv_def q t by blast
          from ge None have cc: "control (advance items callback L w) = AwaitingRace ?q None"
            by (simp only: c if_True)
          from bound rn valid show ?thesis unfolding control_inv_def q t cc by simp
        next
          case (Some out)
          from race_of_SomeD[OF Some] obtain j where j: "j \<in> set ?q" "p_state ?ts j = Some out"
            by blast
          show ?thesis
          proof (cases out)
            case (Inl e)
            with j have "\<exists>j. p_state ?ts j = Some (Inl e)" by blast
            moreover from ge Some Inl
            have cc: "control (advance items callback L w) = AwaitingRace ?q (Some (Inl e))"
              by (simp only: c if_True)
            ultimately show ?thesis using bound unfolding control_inv_def q t cc by simp
          next
            case (Inr u)
            with j queue_not_fulfilled[OF qi', of j] show ?thesis by (simp add: q t)
          qed
        qed
      qed
    next
      case False
      with qi have len: "length (tasks w) = length items" by (simp add: queue_inv_def)
      from Dispatching False have q: "queue (advance items callback L w) = queue w"
        and t: "tasks (advance items callback L w) = tasks w"
        and c: "control (advance items callback L w) = AwaitingAll (queue w) (all_of (tasks w) (queue w))"
        by (auto simp: advance_def)
      show ?thesis
      proof (cases "first_rejected (tasks w) (queue w)")
        case (Some e)
        then have a: "all_of (tasks w) (queue w) = Some (Inl e)" by (simp add: all_of_def)
        from first_rejected_SomeD[OF Some] have "\<exists>j. p_state (tasks w) j = Some (Inl e)" by blast
        with a len bound show ?thesis unfolding control_inv_def q t c by simp
      next
        case None
        show ?thesis
        proof (cases "list_all (\<lambda>j. p_state (tasks w) j = Some (Inr ())) (queue w)")
          case True
          with None have a: "all_of (tasks w) (queue w) = Some (Inr ())" by (simp add: all_of_def)
          from all_fulfilled_queue_empty[OF qi _ True] have "queue w = []" by simp
          with a len show ?thesis unfolding control_inv_def q t c by simp
        next
          case False
          with None have a: "all_of (tasks w) (queue w) = None" by (simp add: all_of_def)
          from None have norej: "\<forall>j \<in> set (queue w). \<forall>e. p_state (tasks w) j \<noteq> Some (Inl e)"
            by (simp add: first_rejected_None_iff)
          from False obtain j where j: "j \<in> set (queue w)" "p_state (tasks w) j \<noteq> Some (Inr ())"
            by (auto simp: list_all_iff)
          with norej have "p_state (tasks w) j = None"
            by (cases "p_state (tasks w) j") (auto, metis old.unit.exhaust sum.exhaust_sel sum.collapse)
          with j have "\<exists>j \<in> set (queue w). p_state (tasks w) j = None" by blast
          moreover from qi have "\<forall>j \<in> set (queue w). j < length (tasks w)"
            unfolding queue_inv_def by blast
          ultimately show ?thesis using a len bound norej unfolding control_inv_def q t c by simp
        qed
      qed
    qed
  next
    case (AwaitingRace ps r)
    show ?thesis
    proof (cases r)
      case None
      with AwaitingRace ci show ?thesis by (simp add: advance_def)
    next
      case (Some out)
      with AwaitingRace ok show ?thesis
        by (cases out) (auto simp: advance_def control_inv_def)
    qed
  next
    case (AwaitingAll ps r)
    show ?thesis
    proof (cases r)
      case None
      with AwaitingAll ci show ?thesis by (simp add: advance_def)
    next
      case (Some out)
      with AwaitingAll ok show ?thesis
        by (cases out) (auto simp: advance_def control_inv_def)
    qed
  next
    case Returned
    with ci show ?thesis by (simp add: advance_def)
  next
    case (Threw e)
    with ci show ?thesis by (simp add: advance_def)
  qed
qed

lemma limiter_inv_step:
  "limiter_inv items L w \<Longrightarrow> limiter_inv items L (step items callback L ev w)"
  by (cases ev)
    (simp_all add: limiter_inv_def queue_inv_advance queue_inv_deliver queue_inv_react
      control_inv_advance control_inv_deliver control_inv_react)

lemma limiter_inv_run:
  fixes callback :: "('t, 'l, 'ev, 'e, 'st) callback"
  shows "limiter_inv items L (runWithLimitedConcurrency items callback L schedule st)"
  unfolding runWithLimitedConcurrency_def
proof (rule foldl_invariant)
  show "limiter_inv items L (start_run st)"
    by (simp add: limiter_inv_def queue_inv_start control_inv_start)
next
  fix w :: "('l, 'e, 'st) limiter" and ev :: "'ev event"
  assume "limiter_inv items L w"
  then show "limiter_inv items L (step items callback L ev w)" by (rule limiter_inv_step)
qed

lemma returned_all_fulfilled:
  assumes "limiter_inv items L w" "control w = Returned"
  shows "length (tasks w) = length items \<and> (\<forall>i < length (tasks w). tasks w ! i = Reacted (Inr ()))"
proof -
  from assms have "length (tasks w) = length items" "queue w = []"
    by (simp_all add: limiter_inv_def control_inv_def)
  moreover from assms(1) have "\<forall>i. i \<in> set (queue w) \<longleftrightarrow> i < length (tasks w) \<and> tasks w ! i \<noteq> Reacted (Inr ())"
    by (simp add: limiter_inv_def queue_inv_def)
  ultimately show ?thesis by auto
qed

lemma threw_some_rejected:
  assumes "limiter_inv items L w" "control w = Threw e"
  shows "\<exists>j < length (tasks w). tasks w ! j = Reacted (Inl e)"
proof -
  from assms have "\<exists>j. p_state (tasks w) j = Some (Inl e)"
    by (simp add: limiter_inv_def control_inv_def)
  then show ?thesis by (auto simp: p_state_Some_iff)
qed

lemma notify_control_cases:
  "control (notify i out w) = control w
   \<or> (\<exists>ps. control w = AwaitingRace ps None \<and> control (notify i out w) = AwaitingRace ps (Some out))
   \<or> (\<exists>ps r. control w = AwaitingAll ps None \<and> control (notify i out w) = AwaitingAll ps r)"
proof (cases "control w")
  case (AwaitingRace ps r)
  then show ?thesis by (cases r) (auto simp: notify_def)
next
  case (AwaitingAll ps r)
  then show ?thesis by (cases r; cases out) (auto simp: notify_def)
qed (auto simp: notify_def)

lemma react_cases:
  "react i w = w
   \<or> (\<exists>e. react i w = notify i (Inl e) (w\<lparr>tasks := (tasks w)[i := Reacted (Inl e)]\<rparr>))
   \<or> react i w = notify i (Inr ())
        (w\<lparr>queue := splice_out i (queue w), tasks := (tasks w)[i := Reacted (Inr ())]\<rparr>)"
proof (cases "i < length (tasks w)")
  case False
  then show ?thesis by (simp add: react_def)
next
  case True
  show ?thesis
  proof (cases "tasks w ! i")
    case (Settled out)
    with True show ?thesis by (cases out) (auto simp: react_def)
  qed (use True in \<open>simp_all add: react_def\<close>)
qed

lemma react_control_cases:
  "control (react i w) = control w
   \<or> (\<exists>ps out. control w = AwaitingRace ps None \<and> control (react i w) = AwaitingRace ps (Some out))
   \<or> (\<exists>ps r. control w = AwaitingAll ps None \<and> control (react i w) = AwaitingAll ps r)"
proof -
  let ?w1 = "\<lambda>e. w\<lparr>tasks := (tasks w)[i := Reacted (Inl e)]\<rparr>"
  let ?w2 = "w\<lparr>queue := splice_out i (queue w), tasks := (tasks w)[i := Reacted (Inr ())]\<rparr>"
  from react_cases[of i w] consider "react i w = w"
    | e where "react i w = notify i (Inl e) (?w1 e)"
    | "react i w = notify i (Inr ()) ?w2" by blast
  then show ?thesis
  proof cases
    case 1
    then show ?thesis by simp
  next
    case (2 e)
    with notify_control_cases[of i "Inl e" "?w1 e"] show ?thesis by auto
  next
    case 3
    with notify_control_cases[of i "Inr ()" ?w2] show ?thesis by auto
  qed
qed

lemma react_length [simp]: "length (tasks (react i w)) = length (tasks w)"
  using react_cases[of i w] by auto

lemma threw_only_after_await:
  assumes "control (step items callback L ev w) = Threw e" "control w \<noteq> Threw e"
  shows "ev = Advance \<and> (\<exists>ps. control w = AwaitingRace ps (Some (Inl e))
                              \<or> control w = AwaitingAll ps (Some (Inl e)))"
proof (cases ev)
  case Advance
  with assms have t: "control (advance items callback L w) = Threw e" by simp
  show ?thesis
  proof (cases "control w")
    case Dispatching
    with t show ?thesis
      by (auto simp: advance_def Let_def split: prod.splits if_splits)
  next
    case (AwaitingRace ps r)
    with t Advance show ?thesis
      by (cases r) (auto simp: advance_def split: sum.splits)
  next
    case (AwaitingAll ps r)
    with t Advance show ?thesis
      by (cases r) (auto simp: advance_def split: sum.splits)
  next
    case Returned
    with t show ?thesis by (simp add: advance_def)
  next
    case (Threw e')
    with t assms(2) show ?thesis by (simp add: advance_def)
  qed
next
  case (Deliver i x)
  with assms show ?thesis by (simp add: deliver_fields)
next
  case (React i)
  with assms have "control (react i w) = Threw e" by simp
  with react_control_cases[of i w] assms(2) show ?thesis by auto
qed

lemma no_deadlock:
  assumes inv: "limiter_inv items L w" and q: "quiescent w" and nf: "\<not> finished w"
  shows "advance items callback L w \<noteq> w"
    and "(\<exists>ps r. control w = AwaitingAll ps r) \<Longrightarrow> finished (advance items callback L w)"
proof -
  from q have reacted: "\<And>j. j < length (tasks w) \<Longrightarrow> p_state (tasks w) j \<noteq> None"
    by (auto simp: quiescent_def list_all_length p_state_def split: task.splits)
  from inv have ok: "control_ok (length items) (queue w) (tasks w) L (control w)"
    by (simp add: limiter_inv_def control_inv_def)
  have race: "\<And>ps. control w \<noteq> AwaitingRace ps None"
  proof
    fix ps assume c: "control w = AwaitingRace ps None"
    with ok obtain j where "j \<in> set ps" by (cases ps) auto
    with ok c reacted[of j] show False by auto
  qed
  have join: "\<And>ps. control w \<noteq> AwaitingAll ps None"
  proof
    fix ps assume c: "control w = AwaitingAll ps None"
    with ok obtain j where "j \<in> set ps" "p_state (tasks w) j = None" by auto
    with ok c reacted[of j] show False by auto
  qed
  show "advance items callback L w \<noteq> w"
  proof (cases "control w")
    case Dispatching
    show ?thesis
    proof (cases "length (tasks w) < length items")
      case True
      with Dispatching have "length (tasks (advance items callback L w)) = Suc (length (tasks w))"
        by (auto simp: advance_def Let_def split: prod.splits)
      then show ?thesis by auto
    next
      case False
      with Dispatching have "control (advance items callback L w) \<noteq> Dispatching"
        by (simp add: advance_def)
      with Dispatching show ?thesis by auto
    qed
  next
    case (AwaitingRace ps r)
    with race obtain out where "r = Some out" by (cases r) auto
    with AwaitingRace have "control (advance items callback L w) \<noteq> control w"
      by (cases out) (simp_all add: advance_def)
    then show ?thesis by auto
  next
    case (AwaitingAll ps r)
    with join obtain out where "r = Some out" by (cases r) auto
    with AwaitingAll have "control (advance items callback L w) \<noteq> control w"
      by (cases out) (simp_all add: advance_def)
    then show ?thesis by auto
  next
    case Returned
    with nf show ?thesis by (simp add: finished_def)
  next
    case (Threw e)
    with nf show ?thesis by (simp add: finished_def)
  qed
  show "finished (advance items callback L w)" if "\<exists>ps r. control w = AwaitingAll ps r"
  proof -
    from that obtain ps r where c: "control w = AwaitingAll ps r" by blast
    with join obtain out where "r = Some out" by (cases r) auto
    with c show ?thesis by (cases out) (simp_all add: advance_def finished_def)
  qed
qed

lemma steps_left_advance:
  assumes "advance items callback L w \<noteq> w"
  shows "steps_left (length items) (advance items callback L w) < steps_left (length items) w"
proof (cases "control w")
  case Dispatching
  show ?thesis
  proof (cases "length (tasks w) < length items")
    case True
    obtain r st' where inv: "invoke callback (items ! length (tasks w)) (shared w) = (r, st')"
      by (cases "invoke callback (items ! length (tasks w)) (shared w)")
    from Dispatching True inv
    have "length (tasks (advance items callback L w)) = Suc (length (tasks w))"
      "control (advance items callback L w) = Dispatching
       \<or> (\<exists>ps r. control (advance items callback L w) = AwaitingRace ps r)"
      by (auto simp: advance_def Let_def)
    with Dispatching True show ?thesis by (auto simp: steps_left_def)
  next
    case False
    with Dispatching show ?thesis by (simp add: steps_left_def advance_def)
  qed
next
  case (AwaitingRace ps r)
  with assms show ?thesis
    by (cases r) (auto simp: advance_def steps_left_def split: sum.splits)
next
  case (AwaitingAll ps r)
  with assms show ?thesis
    by (cases r) (auto simp: advance_def steps_left_def split: sum.splits)
next
  case Returned
  with assms show ?thesis by (simp add: advance_def)
next
  case (Threw e)
  with assms show ?thesis by (simp add: advance_def)
qed

lemma steps_left_other:
  "steps_left n (deliver callback i x w) = steps_left n w"
  "steps_left n (react i w) = steps_left n w"
proof -
  show "steps_left n (deliver callback i x w) = steps_left n w"
    by (simp add: steps_left_def deliver_fields)
  from react_control_cases[of i w]
  show "steps_left n (react i w) = steps_left n w"
    by (auto simp: steps_left_def)
qed

text \<open>
  Claim C1. For every list of items, every callback, every limit \<open>L \<ge> 1\<close> and every
  schedule, the number of callback invocations that have started and not yet settled is at
  most \<open>L\<close> in the state the schedule leads to; the schedules being all the lists of events,
  these states are all the states of all executions.
\<close>

theorem in_flight_bounded:
  "1 \<le> concurrencyLimit \<Longrightarrow>
     int (in_flight (runWithLimitedConcurrency items callback concurrencyLimit schedule st))
       \<le> concurrencyLimit"
proof -
  assume L: "1 \<le> concurrencyLimit"
  let ?w = "runWithLimitedConcurrency items callback concurrencyLimit schedule st"
  from limiter_inv_run[of items concurrencyLimit callback schedule st]
  have qi: "queue_inv items ?w" and ci: "control_inv items concurrencyLimit ?w"
    by (simp_all add: limiter_inv_def)
  from ci have "int (length (queue ?w)) \<le> max concurrencyLimit 1"
    unfolding control_inv_def by (rule control_ok_queue_bound)
  with in_flight_le_queue[OF qi] L show ?thesis by simp
qed

theorem in_flight_bounded_witness:
  "(1::int) \<le> 2
   \<and> in_flight (runWithLimitedConcurrency [1, 2, 3 :: nat]
         (plain_callback :: (nat, unit, string outcome, string, nat) callback) 2
         [Advance, Advance, Advance, Deliver 0 (Inr ()), React 0, Advance, Advance, Advance] 0) = 2
   \<and> int (in_flight (runWithLimitedConcurrency [1, 2, 3 :: nat]
         (plain_callback :: (nat, unit, string outcome, string, nat) callback) 2
         [Advance, Advance, Advance, Deliver 0 (Inr ()), React 0, Advance, Advance, Advance] 0)) \<le> 2"
proof -
  have "in_flight (runWithLimitedConcurrency [1, 2, 3 :: nat]
         (plain_callback :: (nat, unit, string outcome, string, nat) callback) 2
         [Advance, Advance, Advance, Deliver 0 (Inr ()), React 0, Advance, Advance, Advance] 0) = 2"
    by code_simp
  moreover have one: "(1::int) \<le> 2" by simp
  moreover note in_flight_bounded[OF one, of "[1, 2, 3 :: nat]"
      "plain_callback :: (nat, unit, string outcome, string, nat) callback"
      "[Advance, Advance, Advance, Deliver 0 (Inr ()), React 0, Advance, Advance, Advance]" 0]
  ultimately show ?thesis by blast
qed

lemma advance_tasks_shared:
  "(tasks (advance items callback L w) = tasks w \<and> shared (advance items callback L w) = shared w)
   \<or> (\<exists>r s'. length (tasks w) < length items
          \<and> invoke callback (items ! length (tasks w)) (shared w) = (r, s')
          \<and> tasks (advance items callback L w) = tasks w @ [task_of r]
          \<and> shared (advance items callback L w) = s')"
proof (cases "control w = Dispatching \<and> length (tasks w) < length items")
  case False
  then show ?thesis
    by (auto simp: advance_def split: control.splits option.splits sum.splits)
next
  case True
  obtain r s' where inv: "invoke callback (items ! length (tasks w)) (shared w) = (r, s')"
    by (cases "invoke callback (items ! length (tasks w)) (shared w)")
  with True have "tasks (advance items callback L w) = tasks w @ [task_of r]"
    "shared (advance items callback L w) = s'"
    by (auto simp: advance_def Let_def task_of_def)
  with True inv show ?thesis by blast
qed

lemma deliver_tasks_shared:
  "deliver callback i ev w = w
   \<or> (\<exists>l r s'. i < length (tasks w) \<and> tasks w ! i = Running l
          \<and> resume callback l ev (shared w) = (r, s')
          \<and> tasks (deliver callback i ev w) = (tasks w)[i := task_of r]
          \<and> shared (deliver callback i ev w) = s')"
proof (cases "i < length (tasks w)")
  case False
  then show ?thesis by (simp add: deliver_def)
next
  case True
  show ?thesis
  proof (cases "tasks w ! i")
    case (Running l)
    obtain r s' where res: "resume callback l ev (shared w) = (r, s')"
      by (cases "resume callback l ev (shared w)")
    with True Running have "tasks (deliver callback i ev w) = (tasks w)[i := task_of r]"
      "shared (deliver callback i ev w) = s'"
      by (auto simp: deliver_def task_of_def)
    with True Running res show ?thesis by blast
  qed (use True in \<open>simp_all add: deliver_def\<close>)
qed

lemma react_tasks_shared:
  "shared (react i w) = shared w
   \<and> (tasks (react i w) = tasks w
      \<or> (\<exists>out. i < length (tasks w) \<and> tasks w ! i = Settled out
            \<and> tasks (react i w) = (tasks w)[i := Reacted out]))"
proof (cases "i < length (tasks w)")
  case False
  then show ?thesis by (simp add: react_def)
next
  case True
  show ?thesis
  proof (cases "tasks w ! i")
    case (Settled out)
    with True show ?thesis by (cases out) (auto simp: react_def)
  qed (use True in \<open>simp_all add: react_def\<close>)
qed

lemma race_inv_start: "race_inv (start_run st)"
  by (simp add: race_inv_def start_run_def)

lemma race_inv_notify:
  assumes "race_inv w"
  shows "race_inv (notify i out w)"
proof -
  from notify_control_cases[of i out w]
  have "\<And>ps. control (notify i out w) = AwaitingRace ps None \<Longrightarrow> control w = AwaitingRace ps None"
    by auto
  with assms show ?thesis by (auto simp: race_inv_def)
qed

lemma set_splice_out: "set (splice_out i q) \<subseteq> set q"
  using set_remove1_subset[of i q] by (auto simp: splice_out_def dest: in_set_butlastD)

lemma race_inv_react:
  assumes "race_inv w"
  shows "race_inv (react i w)"
proof -
  let ?w1 = "\<lambda>e. w\<lparr>tasks := (tasks w)[i := Reacted (Inl e)]\<rparr>"
  let ?w2 = "w\<lparr>queue := splice_out i (queue w), tasks := (tasks w)[i := Reacted (Inr ())]\<rparr>"
  have r1: "\<And>e. race_inv (?w1 e)" using assms by (simp add: race_inv_def)
  have r2: "race_inv ?w2" using assms set_splice_out[of i "queue w"] by (auto simp: race_inv_def)
  from react_cases[of i w] consider "react i w = w"
    | e where "react i w = notify i (Inl e) (?w1 e)"
    | "react i w = notify i (Inr ()) ?w2" by blast
  then show ?thesis
  proof cases
    case 1
    with assms show ?thesis by simp
  next
    case 2
    with race_inv_notify[OF r1[of e]] show ?thesis by simp
  next
    case 3
    with race_inv_notify[OF r2] show ?thesis by simp
  qed
qed

lemma advance_race:
  assumes "control (advance items callback L w) = AwaitingRace ps r" "control w = Dispatching"
  shows "ps = queue (advance items callback L w)
       \<and> r = race_of (tasks (advance items callback L w)) ps"
  using assms
  by (auto simp: advance_def Let_def split: prod.splits if_splits)

lemma advance_join:
  assumes "control (advance items callback L w) = AwaitingAll ps r" "control w = Dispatching"
  shows "ps = queue w \<and> r = all_of (tasks w) ps
       \<and> queue (advance items callback L w) = queue w \<and> tasks (advance items callback L w) = tasks w"
  using assms
  by (auto simp: advance_def Let_def split: prod.splits if_splits)

lemma race_inv_advance:
  assumes "race_inv w"
  shows "race_inv (advance items callback L w)"
proof (cases "control w")
  case Dispatching
  with advance_race[of items callback L w] show ?thesis by (auto simp: race_inv_def)
next
  case (AwaitingRace ps r)
  show ?thesis
  proof (cases r)
    case None
    with AwaitingRace assms show ?thesis by (simp add: advance_def)
  next
    case (Some out)
    with AwaitingRace show ?thesis by (cases out) (simp_all add: advance_def race_inv_def)
  qed
next
  case (AwaitingAll ps r)
  show ?thesis
  proof (cases r)
    case None
    with AwaitingAll assms show ?thesis by (simp add: advance_def)
  next
    case (Some out)
    with AwaitingAll show ?thesis by (cases out) (simp_all add: advance_def race_inv_def)
  qed
next
  case Returned
  with assms show ?thesis by (simp add: advance_def)
next
  case (Threw e)
  with assms show ?thesis by (simp add: advance_def)
qed

lemma race_inv_step: "race_inv w \<Longrightarrow> race_inv (step items callback L ev w)"
proof (cases ev)
  case Advance
  assume "race_inv w"
  then show ?thesis unfolding Advance step.simps by (rule race_inv_advance)
next
  case (Deliver i x)
  assume "race_inv w"
  then show ?thesis unfolding Deliver step.simps by (simp add: race_inv_def deliver_fields)
next
  case (React i)
  assume "race_inv w"
  then show ?thesis unfolding React step.simps by (rule race_inv_react)
qed

lemma reacted_stays:
  assumes "i < length (tasks w)" "tasks w ! i = Reacted out"
  shows "i < length (tasks (step items callback L ev w))
       \<and> tasks (step items callback L ev w) ! i = Reacted out"
proof (cases ev)
  case Advance
  from advance_tasks_shared[of items callback L w] assms show ?thesis
    unfolding Advance step.simps by (auto simp: nth_append)
next
  case (Deliver j x)
  from deliver_tasks_shared[of callback j x w] assms show ?thesis
    unfolding Deliver step.simps by (auto simp: nth_list_update)
next
  case (React j)
  from react_tasks_shared[of j w] assms show ?thesis
    unfolding React step.simps by (auto simp: nth_list_update)
qed

lemma some_rejected_step:
  "some_rejected w \<Longrightarrow> some_rejected (step items callback L ev w)"
  unfolding some_rejected_def using reacted_stays by blast

lemma all_fulfilled_step:
  assumes "all_fulfilled items w"
  shows "all_fulfilled items (step items callback L ev w)"
proof (cases ev)
  case Advance
  from advance_tasks_shared[of items callback L w] assms show ?thesis
    unfolding Advance step.simps by (auto simp: all_fulfilled_def)
next
  case (Deliver j x)
  from deliver_tasks_shared[of callback j x w] assms show ?thesis
    unfolding Deliver step.simps by (auto simp: all_fulfilled_def)
next
  case (React j)
  from react_tasks_shared[of j w] assms show ?thesis
    unfolding React step.simps by (auto simp: all_fulfilled_def)
qed

lemma finished_control:
  assumes "finished w"
  shows "control (step items callback L ev w) = control w"
proof (cases ev)
  case Advance
  from assms show ?thesis unfolding Advance step.simps
    by (auto simp: finished_def advance_def split: control.splits)
next
  case (Deliver j x)
  show ?thesis unfolding Deliver step.simps by (simp add: deliver_fields)
next
  case (React j)
  from react_control_cases[of j w] assms show ?thesis unfolding React step.simps
    by (auto simp: finished_def)
qed

lemma finished_foldl:
  "finished w \<Longrightarrow> finished (foldl (\<lambda>w ev. step items callback L ev w) w rest)"
proof (induction rest arbitrary: w)
  case Nil
  then show ?case by simp
next
  case (Cons ev rest)
  from finished_control[OF Cons.prems, of items callback L ev] Cons.prems
  have "finished (step items callback L ev w)" by (simp add: finished_def)
  then show ?case using Cons.IH by simp
qed

lemma rejected_progress:
  assumes inv: "limiter_inv items L w" and race: "race_inv w" and rej: "some_rejected w"
    and nf: "\<not> finished w"
  shows "advance items callback L w \<noteq> w"
proof -
  from rej obtain i e where i: "i < length (tasks w)" "tasks w ! i = Reacted (Inl e)"
    by (auto simp: some_rejected_def)
  then have ps: "p_state (tasks w) i = Some (Inl e)" by (simp add: p_state_Some_iff)
  from inv have qi: "queue_inv items w"
    and ok: "control_ok (length items) (queue w) (tasks w) L (control w)"
    by (simp_all add: limiter_inv_def control_inv_def)
  from qi i have iq: "i \<in> set (queue w)" by (simp add: queue_inv_def)
  show ?thesis
  proof (cases "control w")
    case Dispatching
    show ?thesis
    proof (cases "length (tasks w) < length items")
      case True
      with Dispatching have "length (tasks (advance items callback L w)) = Suc (length (tasks w))"
        by (auto simp: advance_def Let_def split: prod.splits)
      then show ?thesis by auto
    next
      case False
      with Dispatching have "control (advance items callback L w) \<noteq> Dispatching"
        by (simp add: advance_def)
      with Dispatching show ?thesis by auto
    qed
  next
    case (AwaitingRace qs r)
    show ?thesis
    proof (cases r)
      case None
      with AwaitingRace race iq have "i \<in> set qs" by (auto simp: race_inv_def)
      with ok AwaitingRace None ps show ?thesis by auto
    next
      case (Some out)
      with AwaitingRace have "control (advance items callback L w) \<noteq> control w"
        by (cases out) (simp_all add: advance_def)
      then show ?thesis by auto
    qed
  next
    case (AwaitingAll qs r)
    show ?thesis
    proof (cases r)
      case None
      with AwaitingAll ok iq have "i \<in> set qs" by auto
      with ok AwaitingAll None ps show ?thesis by auto
    next
      case (Some out)
      with AwaitingAll have "control (advance items callback L w) \<noteq> control w"
        by (cases out) (simp_all add: advance_def)
      then show ?thesis by auto
    qed
  next
    case Returned
    with nf show ?thesis by (simp add: finished_def)
  next
    case (Threw e)
    with nf show ?thesis by (simp add: finished_def)
  qed
qed

lemma all_fulfilled_quiescent: "all_fulfilled items w \<Longrightarrow> quiescent w"
  by (auto simp: all_fulfilled_def quiescent_def list_all_length)

lemma steps_left_le: "steps_left n w \<le> 2 * n + 3"
  by (cases "control w") (simp_all add: steps_left_def)

lemma steps_left_pos: "\<not> finished w \<Longrightarrow> 0 < steps_left n w"
  by (cases "control w") (simp_all add: steps_left_def finished_def)

lemma progress_bound:
  fixes callback :: "('t, 'l, 'ev, 'e, 'st) callback" and w :: "('l, 'e, 'st) limiter"
  assumes stable: "\<And>w ev. G w \<Longrightarrow> G (step items callback L ev w)"
    and progress: "\<And>w. G w \<Longrightarrow> \<not> finished w \<Longrightarrow> advance items callback L w \<noteq> w"
    and G: "G w"
  shows "finished (foldl (\<lambda>w ev. step items callback L ev w) w rest)
       \<or> steps_left (length items) (foldl (\<lambda>w ev. step items callback L ev w) w rest)
           + count_list rest Advance \<le> steps_left (length items) w"
  using G
proof (induction rest arbitrary: w)
  case Nil
  then show ?case by simp
next
  case (Cons ev rest)
  let ?w1 = "step items callback L ev w"
  let ?end = "foldl (\<lambda>w ev. step items callback L ev w) ?w1 rest"
  show ?case
  proof (cases "finished w")
    case True
    from finished_foldl[OF True, of items callback L "ev # rest"] show ?thesis by simp
  next
    case False
    have G1: "G ?w1" using Cons.prems by (rule stable)
    have one: "steps_left (length items) ?w1 + (if ev = Advance then 1 else 0)
        \<le> steps_left (length items) w"
    proof (cases ev)
      case Advance
      from progress[OF Cons.prems False] steps_left_advance[of items callback L w]
      show ?thesis unfolding Advance by simp
    next
      case (Deliver j x)
      then show ?thesis by (simp add: steps_left_other)
    next
      case (React j)
      then show ?thesis by (simp add: steps_left_other)
    qed
    from Cons.IH[OF G1] consider "finished ?end"
      | "steps_left (length items) ?end + count_list rest Advance \<le> steps_left (length items) ?w1"
      by blast
    then show ?thesis
    proof cases
      case 1
      then show ?thesis by simp
    next
      case 2
      with one have "steps_left (length items) ?end + count_list (ev # rest) Advance
          \<le> steps_left (length items) w" by (cases "ev = Advance") simp_all
      then show ?thesis by simp
    qed
  qed
qed

lemma enough_steps_finish:
  fixes callback :: "('t, 'l, 'ev, 'e, 'st) callback" and w :: "('l, 'e, 'st) limiter"
  assumes stable: "\<And>w ev. G w \<Longrightarrow> G (step items callback L ev w)"
    and progress: "\<And>w. G w \<Longrightarrow> \<not> finished w \<Longrightarrow> advance items callback L w \<noteq> w"
    and G: "G w" and enough: "2 * length items + 3 \<le> count_list rest Advance"
  shows "finished (foldl (\<lambda>w ev. step items callback L ev w) w rest)
       \<and> G (foldl (\<lambda>w ev. step items callback L ev w) w rest)"
proof
  let ?end = "foldl (\<lambda>w ev. step items callback L ev w) w rest"
  show "finished ?end"
  proof (rule ccontr)
    assume nf: "\<not> finished ?end"
    with progress_bound[of G items callback L w rest, OF stable progress G]
    have "steps_left (length items) ?end + count_list rest Advance \<le> steps_left (length items) w"
      by blast
    with steps_left_pos[OF nf, of "length items"] steps_left_le[of "length items" w] enough
    show False by simp
  qed
  show "G ?end" using G by (rule foldl_invariant) (rule stable)
qed

lemma rejection_surfaces:
  fixes callback :: "('t, 'l, 'ev, 'e, 'st) callback" and w :: "('l, 'e, 'st) limiter"
  assumes inv: "limiter_inv items L w" and race: "race_inv w" and rej: "some_rejected w"
    and enough: "2 * length items + 3 \<le> count_list rest Advance"
  shows "\<exists>e. control (foldl (\<lambda>w ev. step items callback L ev w) w rest) = Threw e"
proof -
  let ?G = "\<lambda>w :: ('l, 'e, 'st) limiter. limiter_inv items L w \<and> race_inv w \<and> some_rejected w"
  let ?end = "foldl (\<lambda>w ev. step items callback L ev w) w rest"
  have "finished ?end \<and> ?G ?end"
  proof (rule enough_steps_finish[where G = ?G])
    fix w :: "('l, 'e, 'st) limiter" and ev :: "'ev event"
    assume "?G w"
    then show "?G (step items callback L ev w)"
      by (simp add: limiter_inv_step race_inv_step some_rejected_step)
  next
    fix w :: "('l, 'e, 'st) limiter"
    assume "?G w" "\<not> finished w"
    then show "advance items callback L w \<noteq> w" by (simp add: rejected_progress)
  qed (use inv race rej enough in simp_all)
  then have fin: "finished ?end" and inv': "limiter_inv items L ?end" and rej': "some_rejected ?end"
    by simp_all
  have "control ?end \<noteq> Returned"
  proof
    assume "control ?end = Returned"
    from returned_all_fulfilled[OF inv' this] rej' show False by (auto simp: some_rejected_def)
  qed
  with fin show ?thesis by (cases "control ?end") (simp_all add: finished_def)
qed

lemma fulfilment_returns:
  fixes callback :: "('t, 'l, 'ev, 'e, 'st) callback" and w :: "('l, 'e, 'st) limiter"
  assumes inv: "limiter_inv items L w" and all: "all_fulfilled items w"
    and enough: "2 * length items + 3 \<le> count_list rest Advance"
  shows "control (foldl (\<lambda>w ev. step items callback L ev w) w rest) = Returned"
proof -
  let ?G = "\<lambda>w :: ('l, 'e, 'st) limiter. limiter_inv items L w \<and> all_fulfilled items w"
  let ?end = "foldl (\<lambda>w ev. step items callback L ev w) w rest"
  have "finished ?end \<and> ?G ?end"
  proof (rule enough_steps_finish[where G = ?G])
    fix w :: "('l, 'e, 'st) limiter" and ev :: "'ev event"
    assume "?G w"
    then show "?G (step items callback L ev w)"
      by (simp add: limiter_inv_step all_fulfilled_step)
  next
    fix w :: "('l, 'e, 'st) limiter"
    assume g: "?G w" and nf: "\<not> finished w"
    from g have "limiter_inv items L w" "quiescent w" by (auto intro: all_fulfilled_quiescent)
    from no_deadlock(1)[OF this nf] show "advance items callback L w \<noteq> w" .
  qed (use inv all enough in simp_all)
  then have fin: "finished ?end" and inv': "limiter_inv items L ?end" and all': "all_fulfilled items ?end"
    by simp_all
  show ?thesis
  proof (cases "control ?end")
    case (Threw e)
    from threw_some_rejected[OF inv' this] all' show ?thesis by (auto simp: all_fulfilled_def)
  qed (use fin in \<open>simp_all add: finished_def\<close>)
qed

lemma race_inv_run: "race_inv (runWithLimitedConcurrency items callback L schedule st)"
  unfolding runWithLimitedConcurrency_def
  by (rule foldl_invariant) (auto intro: race_inv_start race_inv_step)

lemma rejection_observed:
  assumes inv: "limiter_inv items L w" and race: "race_inv w"
    and i: "i < length (tasks w)" "tasks w ! i = Settled (Inl e)"
  shows "control w = AwaitingRace ps None \<Longrightarrow> control (react i w) = AwaitingRace ps (Some (Inl e))"
    and "control w = AwaitingAll ps None \<Longrightarrow> control (react i w) = AwaitingAll ps (Some (Inl e))"
proof -
  from inv have qi: "queue_inv items w"
    and ok: "control_ok (length items) (queue w) (tasks w) L (control w)"
    by (simp_all add: limiter_inv_def control_inv_def)
  from qi i have iq: "i \<in> set (queue w)" by (simp add: queue_inv_def)
  from i have r: "react i w = notify i (Inl e) (w\<lparr>tasks := (tasks w)[i := Reacted (Inl e)]\<rparr>)"
    by (simp add: react_def)
  show "control (react i w) = AwaitingRace ps (Some (Inl e))" if c: "control w = AwaitingRace ps None"
  proof -
    from c race iq have "i \<in> set ps" by (auto simp: race_inv_def)
    with c show ?thesis unfolding r by (simp add: notify_def)
  qed
  show "control (react i w) = AwaitingAll ps (Some (Inl e))" if c: "control w = AwaitingAll ps None"
  proof -
    from c ok iq have "i \<in> set ps" by auto
    with c show ?thesis unfolding r by (simp add: notify_def)
  qed
qed

lemma settled_await_stays:
  assumes "control w = AwaitingRace ps (Some out) \<or> control w = AwaitingAll ps (Some out)"
  shows "control (deliver callback i x w) = control w" and "control (react i w) = control w"
proof -
  show "control (deliver callback i x w) = control w" by (simp add: deliver_fields)
  from react_control_cases[of i w] assms show "control (react i w) = control w" by auto
qed

lemma race_of_first_rejected:
  assumes "\<forall>j \<in> set ps. p_state ts j \<noteq> Some (Inr ())"
  shows "race_of ts ps = map_option Inl (first_rejected ts ps)"
  using assms
proof (induction ps)
  case Nil
  then show ?case by simp
next
  case (Cons j ps)
  show ?case
  proof (cases "p_state ts j")
    case None
    with Cons show ?thesis by simp
  next
    case (Some out)
    with Cons.prems show ?thesis by (cases out) auto
  qed
qed

lemma race_at_call:
  assumes inv: "limiter_inv items L w" and d: "control w = Dispatching"
    and a: "control (advance items callback L w) = AwaitingRace ps r"
  shows "ps = queue (advance items callback L w)
       \<and> r = map_option Inl (first_rejected (tasks (advance items callback L w)) ps)"
proof -
  let ?w' = "advance items callback L w"
  from advance_race[OF a d] have ps: "ps = queue ?w'" and r: "r = race_of (tasks ?w') ps" by simp_all
  from inv have "limiter_inv items L (step items callback L Advance w)" by (rule limiter_inv_step)
  then have "queue_inv items ?w'" by (simp add: limiter_inv_def)
  with ps have "\<forall>j \<in> set ps. p_state (tasks ?w') j \<noteq> Some (Inr ())"
    using queue_not_fulfilled[of items ?w'] by blast
  from race_of_first_rejected[OF this] ps r show ?thesis by simp
qed

text \<open>
  Claim C2, as amended. In the state \<open>w\<close> any schedule leads to:
  \<^item> if the function has returned, every item was dispatched and every callback invocation
    was fulfilled (so after a rejection of any invocation it does not return);
  \<^item> if it has thrown \<open>e\<close>, then \<open>e\<close> is the rejection of one of the invocations;
  \<^item> it comes to throw \<open>e\<close> only by its own next step out of an awaited race or join that
    was rejected with \<open>e\<close>, never by the rejection of a callback as such;
  \<^item> which rejection that is: a race, at the call, is rejected like the first promise in the
    order of \<open>queue\<close> that has been rejected already, and is pending when there is none; the
    join, at the call, likewise, except that it is fulfilled when \<open>queue\<close> is empty; a race or
    join that is pending is rejected with the rejection of the first invocation whose
    rejection is handled; and once it has settled, nothing but the function's own next step
    changes it;
  \<^item> once the promise of some invocation has been rejected, the function has thrown after
    at most \<open>2 * length items + 3\<close> further steps of its own, whatever else happens in
    between and whether or not the other invocations ever settle;
  \<^item> once every item was dispatched and every invocation fulfilled, it has returned after
    at most as many steps of its own;
  \<^item> when nothing started is outstanding and it has not finished, its next step changes
    the state, and when the state it is in is the final join, that step finishes it;
  \<^item> each of its steps that changes the state lowers a bound that no other event raises,
    so it takes at most \<open>2 * length items + 2\<close> of them.
\<close>

theorem runWithLimitedConcurrency_settles:
  fixes callback :: "('t, 'l, 'ev, 'e, 'st) callback"
  shows
  "(let w = runWithLimitedConcurrency items callback concurrencyLimit schedule st;
        w' = advance items callback concurrencyLimit w
    in (control w = Returned \<longrightarrow>
          length (tasks w) = length items
          \<and> (\<forall>i < length (tasks w). tasks w ! i = Reacted (Inr ())))
     \<and> (\<forall>e. control w = Threw e \<longrightarrow> (\<exists>j < length (tasks w). tasks w ! j = Reacted (Inl e)))
     \<and> (\<forall>ev e. control (step items callback concurrencyLimit ev w) = Threw e
                 \<and> control w \<noteq> Threw e \<longrightarrow>
            ev = Advance \<and> (\<exists>ps. control w = AwaitingRace ps (Some (Inl e))
                                 \<or> control w = AwaitingAll ps (Some (Inl e))))
     \<and> (\<forall>ps r. control w = Dispatching \<and> control w' = AwaitingRace ps r \<longrightarrow>
            ps = queue w' \<and> r = map_option Inl (first_rejected (tasks w') ps))
     \<and> (\<forall>ps r. control w = Dispatching \<and> control w' = AwaitingAll ps r \<longrightarrow>
            ps = queue w \<and> r = all_of (tasks w) ps)
     \<and> (\<forall>i e ps. i < length (tasks w) \<and> tasks w ! i = Settled (Inl e) \<longrightarrow>
            (control w = AwaitingRace ps None \<longrightarrow>
               control (react i w) = AwaitingRace ps (Some (Inl e)))
            \<and> (control w = AwaitingAll ps None \<longrightarrow>
               control (react i w) = AwaitingAll ps (Some (Inl e))))
     \<and> (\<forall>ps out i x. control w = AwaitingRace ps (Some out) \<or> control w = AwaitingAll ps (Some out) \<longrightarrow>
            control (deliver callback i x w) = control w \<and> control (react i w) = control w)
     \<and> (\<forall>rest. some_rejected w \<and> 2 * length items + 3 \<le> count_list rest Advance \<longrightarrow>
            (\<exists>e. control (runWithLimitedConcurrency items callback concurrencyLimit
                            (schedule @ rest) st) = Threw e))
     \<and> (\<forall>rest. all_fulfilled items w \<and> 2 * length items + 3 \<le> count_list rest Advance \<longrightarrow>
            control (runWithLimitedConcurrency items callback concurrencyLimit
                       (schedule @ rest) st) = Returned)
     \<and> (quiescent w \<and> \<not> finished w \<longrightarrow>
            w' \<noteq> w \<and> ((\<exists>ps r. control w = AwaitingAll ps r) \<longrightarrow> finished w'))
     \<and> (w' \<noteq> w \<longrightarrow> steps_left (length items) w' < steps_left (length items) w)
     \<and> (\<forall>i x. steps_left (length items) (deliver callback i x w) = steps_left (length items) w
              \<and> steps_left (length items) (react i w) = steps_left (length items) w)
     \<and> steps_left (length items) (start_run st :: ('l, 'e, 'st) limiter) = 2 * length items + 2)"
proof -
  let ?w = "runWithLimitedConcurrency items callback concurrencyLimit schedule st"
  let ?w' = "advance items callback concurrencyLimit ?w"
  note inv = limiter_inv_run[of items concurrencyLimit callback schedule st]
  note race = race_inv_run[of items callback concurrencyLimit schedule st]
  have cont: "\<And>rest. runWithLimitedConcurrency items callback concurrencyLimit (schedule @ rest) st
      = foldl (\<lambda>w ev. step items callback concurrencyLimit ev w) ?w rest"
    by (simp add: runWithLimitedConcurrency_def)
  have a: "control ?w = Returned \<longrightarrow>
          length (tasks ?w) = length items
          \<and> (\<forall>i < length (tasks ?w). tasks ?w ! i = Reacted (Inr ()))"
    using returned_all_fulfilled[OF inv] by blast
  have b: "\<forall>e. control ?w = Threw e \<longrightarrow> (\<exists>j < length (tasks ?w). tasks ?w ! j = Reacted (Inl e))"
    using threw_some_rejected[OF inv] by blast
  have c: "\<forall>ev e. control (step items callback concurrencyLimit ev ?w) = Threw e
                 \<and> control ?w \<noteq> Threw e \<longrightarrow>
            ev = Advance \<and> (\<exists>ps. control ?w = AwaitingRace ps (Some (Inl e))
                                 \<or> control ?w = AwaitingAll ps (Some (Inl e)))"
    using threw_only_after_await[of items callback concurrencyLimit _ ?w] by blast
  have w1: "\<forall>ps r. control ?w = Dispatching \<and> control ?w' = AwaitingRace ps r \<longrightarrow>
            ps = queue ?w' \<and> r = map_option Inl (first_rejected (tasks ?w') ps)"
    using race_at_call[OF inv] by blast
  have w2: "\<forall>ps r. control ?w = Dispatching \<and> control ?w' = AwaitingAll ps r \<longrightarrow>
            ps = queue ?w \<and> r = all_of (tasks ?w) ps"
    using advance_join[of items callback concurrencyLimit ?w] by blast
  have w3: "\<forall>i e ps. i < length (tasks ?w) \<and> tasks ?w ! i = Settled (Inl e) \<longrightarrow>
            (control ?w = AwaitingRace ps None \<longrightarrow>
               control (react i ?w) = AwaitingRace ps (Some (Inl e)))
            \<and> (control ?w = AwaitingAll ps None \<longrightarrow>
               control (react i ?w) = AwaitingAll ps (Some (Inl e)))"
    using rejection_observed[OF inv race] by blast
  have w4: "\<forall>ps out i x. control ?w = AwaitingRace ps (Some out) \<or> control ?w = AwaitingAll ps (Some out) \<longrightarrow>
            control (deliver callback i x ?w) = control ?w \<and> control (react i ?w) = control ?w"
  proof (intro allI impI)
    fix ps out i x
    assume h: "control ?w = AwaitingRace ps (Some out) \<or> control ?w = AwaitingAll ps (Some out)"
    from settled_await_stays[OF h]
    show "control (deliver callback i x ?w) = control ?w \<and> control (react i ?w) = control ?w"
      by simp
  qed
  have l1: "\<forall>rest. some_rejected ?w \<and> 2 * length items + 3 \<le> count_list rest Advance \<longrightarrow>
            (\<exists>e. control (runWithLimitedConcurrency items callback concurrencyLimit
                            (schedule @ rest) st) = Threw e)"
  proof (intro allI impI)
    fix rest :: "'ev event list"
    assume "some_rejected ?w \<and> 2 * length items + 3 \<le> count_list rest Advance"
    then have r: "some_rejected ?w" and n: "2 * length items + 3 \<le> count_list rest Advance"
      by simp_all
    from rejection_surfaces[OF inv race r n]
    show "\<exists>e. control (runWithLimitedConcurrency items callback concurrencyLimit
                            (schedule @ rest) st) = Threw e"
      unfolding cont .
  qed
  have l2: "\<forall>rest. all_fulfilled items ?w \<and> 2 * length items + 3 \<le> count_list rest Advance \<longrightarrow>
            control (runWithLimitedConcurrency items callback concurrencyLimit
                       (schedule @ rest) st) = Returned"
  proof (intro allI impI)
    fix rest :: "'ev event list"
    assume "all_fulfilled items ?w \<and> 2 * length items + 3 \<le> count_list rest Advance"
    then have r: "all_fulfilled items ?w" and n: "2 * length items + 3 \<le> count_list rest Advance"
      by simp_all
    from fulfilment_returns[OF inv r n]
    show "control (runWithLimitedConcurrency items callback concurrencyLimit
                       (schedule @ rest) st) = Returned"
      unfolding cont .
  qed
  have d: "quiescent ?w \<and> \<not> finished ?w \<longrightarrow>
            ?w' \<noteq> ?w \<and> ((\<exists>ps r. control ?w = AwaitingAll ps r) \<longrightarrow> finished ?w')"
    using no_deadlock[OF inv, of callback] by blast
  have e: "?w' \<noteq> ?w \<longrightarrow> steps_left (length items) ?w' < steps_left (length items) ?w"
    using steps_left_advance[of items callback concurrencyLimit ?w] by blast
  have f: "\<forall>i x. steps_left (length items) (deliver callback i x ?w) = steps_left (length items) ?w
              \<and> steps_left (length items) (react i ?w) = steps_left (length items) ?w"
    by (simp add: steps_left_other)
  have g: "steps_left (length items) (start_run st :: ('l, 'e, 'st) limiter) = 2 * length items + 2"
    by (simp add: steps_left_def start_run_def)
  show ?thesis unfolding Let_def
    using a b c w1 w2 w3 w4 l1 l2 d e f g by (intro conjI)
qed

theorem runWithLimitedConcurrency_settles_witness:
  "some_rejected (runWithLimitedConcurrency [1, 2, 3, 4, 5 :: nat]
       (plain_callback :: (nat, unit, string outcome, string, nat) callback) 2
       [Advance, Advance, Deliver 0 (Inr ()), React 0, Advance, Advance,
        Deliver 2 (Inl ''e3''), React 2] 0)
   \<and> tasks (runWithLimitedConcurrency [1, 2, 3, 4, 5 :: nat]
       (plain_callback :: (nat, unit, string outcome, string, nat) callback) 2
       ([Advance, Advance, Deliver 0 (Inr ()), React 0, Advance, Advance,
         Deliver 2 (Inl ''e3''), React 2] @ replicate 13 Advance) 0)
       = [Reacted (Inr ()), Running (), Reacted (Inl ''e3'')]
   \<and> (\<exists>e. control (runWithLimitedConcurrency [1, 2, 3, 4, 5 :: nat]
       (plain_callback :: (nat, unit, string outcome, string, nat) callback) 2
       ([Advance, Advance, Deliver 0 (Inr ()), React 0, Advance, Advance,
         Deliver 2 (Inl ''e3''), React 2] @ replicate 13 Advance) 0) = Threw e)
   \<and> control (runWithLimitedConcurrency [1, 2, 3, 4, 5 :: nat]
       (plain_callback :: (nat, unit, string outcome, string, nat) callback) 2
       ([Advance, Advance, Deliver 0 (Inr ()), React 0, Advance, Advance,
         Deliver 2 (Inl ''e3''), React 2] @ replicate 13 Advance) 0) = Threw ''e3''"
proof -
  let ?schedule = "[Advance, Advance, Deliver 0 (Inr ()), React 0, Advance, Advance,
        Deliver 2 (Inl ''e3''), React 2] :: string outcome event list"
  let ?cb = "plain_callback :: (nat, unit, string outcome, string, nat) callback"
  let ?w = "runWithLimitedConcurrency [1, 2, 3, 4, 5 :: nat] ?cb 2 ?schedule 0"
  let ?end = "runWithLimitedConcurrency [1, 2, 3, 4, 5 :: nat] ?cb 2 (?schedule @ replicate 13 Advance) 0"
  have ts: "tasks ?w = [Reacted (Inr ()), Running (), Reacted (Inl ''e3'')]" by code_simp
  have rej: "some_rejected ?w"
    unfolding some_rejected_def ts by (intro exI[of _ 2]) simp
  have cnt: "2 * length [1, 2, 3, 4, 5 :: nat] + 3
      \<le> count_list (replicate 13 Advance :: string outcome event list) Advance"
    by code_simp
  have pre: "some_rejected ?w
      \<and> 2 * length [1, 2, 3, 4, 5 :: nat] + 3 \<le> count_list (replicate 13 Advance :: string outcome event list) Advance"
    using rej cnt by (rule conjI)
  note settles = runWithLimitedConcurrency_settles[of "[1, 2, 3, 4, 5 :: nat]" ?cb 2 ?schedule 0,
      unfolded Let_def]
  note live = settles[THEN conjunct2, THEN conjunct2, THEN conjunct2, THEN conjunct2, THEN conjunct2,
      THEN conjunct2, THEN conjunct2, THEN conjunct1, rule_format, OF pre]
  have ts': "tasks ?end = [Reacted (Inr ()), Running (), Reacted (Inl ''e3'')]" by code_simp
  have threw: "control ?end = Threw ''e3''" by code_simp
  from rej ts' live threw show ?thesis by (intro conjI)
qed

text \<open>
  Claim C2 as stated fails when two invocations reject: the returned promise is rejected
  with one failure only, and not always with the first. Four items, limit 3: the race over
  the first three promises is fulfilled by the third invocation; before the function goes
  on, the second invocation is rejected with \<open>e2\<close> and then the first with \<open>e1\<close>. The function
  dispatches the fourth item and calls the race again, which is rejected like the first
  promise in \<open>queue\<close> that has been rejected already, that of the first invocation: the
  function throws \<open>e1\<close>. The second invocation did reject, and before the first, and the
  returned promise is not rejected with that failure.
\<close>

theorem runWithLimitedConcurrency_two_failures_counterexample:
  "tasks (runWithLimitedConcurrency [1, 2, 3, 4 :: nat]
       (plain_callback :: (nat, unit, string outcome, string, nat) callback) 3
       [Advance, Advance, Advance, Deliver 2 (Inr ()), Deliver 1 (Inl ''e2''), Deliver 0 (Inl ''e1''),
        React 2, React 1] 0)
     = [Settled (Inl ''e1''), Reacted (Inl ''e2''), Reacted (Inr ())]
   \<and> runWithLimitedConcurrency [1, 2, 3, 4 :: nat]
       (plain_callback :: (nat, unit, string outcome, string, nat) callback) 3
       [Advance, Advance, Advance, Deliver 2 (Inr ()), Deliver 1 (Inl ''e2''), Deliver 0 (Inl ''e1''),
        React 2, React 1, React 0, Advance, Advance, Advance] 0
     = \<lparr>queue = [0, 1, 3],
        tasks = [Reacted (Inl ''e1''), Reacted (Inl ''e2''), Reacted (Inr ()), Running ()],
        control = Threw ''e1'', shared = 4\<rparr>"
  by code_simp

section \<open>Properties of the download functions\<close>

lemma run_invariant:
  fixes P :: "('l, 'e) task list \<Rightarrow> 'st \<Rightarrow> bool"
    and callback :: "('t, 'l, 'ev, 'e, 'st) callback"
  assumes init: "P [] st"
    and invoked: "\<And>ts s r s'. P ts s \<Longrightarrow> length ts < length items \<Longrightarrow>
        invoke callback (items ! length ts) s = (r, s') \<Longrightarrow> P (ts @ [task_of r]) s'"
    and resumed: "\<And>ts s i l ev r s'. P ts s \<Longrightarrow> i < length ts \<Longrightarrow> ts ! i = Running l \<Longrightarrow>
        resume callback l ev s = (r, s') \<Longrightarrow> P (ts[i := task_of r]) s'"
    and reacted: "\<And>ts s i out. P ts s \<Longrightarrow> i < length ts \<Longrightarrow> ts ! i = Settled out \<Longrightarrow>
        P (ts[i := Reacted out]) s"
  shows "P (tasks (runWithLimitedConcurrency items callback L schedule st))
           (shared (runWithLimitedConcurrency items callback L schedule st))"
proof -
  have "(\<lambda>w. P (tasks w) (shared w)) (foldl (\<lambda>w ev. step items callback L ev w) (start_run st) schedule)"
  proof (rule foldl_invariant)
    show "P (tasks (start_run st)) (shared (start_run st))" using init by (simp add: start_run_def)
  next
    fix w :: "('l, 'e, 'st) limiter" and ev :: "'ev event"
    assume P: "P (tasks w) (shared w)"
    show "P (tasks (step items callback L ev w)) (shared (step items callback L ev w))"
    proof (cases ev)
      case Advance
      from advance_tasks_shared[of items callback L w] P show ?thesis
        unfolding Advance step.simps by (auto intro: invoked)
    next
      case (Deliver i x)
      from deliver_tasks_shared[of callback i x w] P show ?thesis
        unfolding Deliver step.simps by (auto intro: resumed)
    next
      case (React i)
      from react_tasks_shared[of i w] P show ?thesis
        unfolding React step.simps by (auto intro: reacted)
    qed
  qed
  then show ?thesis by (simp add: runWithLimitedConcurrency_def)
qed

text \<open>
  Claim C10, as amended. Whenever the listing request succeeds, \<open>getSampleFileInfo\<close> returns
  (it does not throw). When the body lacks \<open>tree\<close> (or there is no body), \<open>samplePaths\<close> is
  undefined; when \<open>tree\<close> is present, \<open>samplePaths\<close> is the paths, in order, of the entries whose
  path starts with \<open>dir\<close> followed by \<open>"/"\<close> and whose type is not \<open>"tree"\<close>. The revision segment
  of \<open>fileUrlPrefix\<close> is the body's \<open>sha\<close>, and the text \<open>undefined\<close> when the body lacks \<open>sha\<close> (or
  there is no body), whether or not \<open>tree\<close> is there.
\<close>

theorem getSampleFileInfo_result:
  assumes "sendRequestWithRetry (http_get (fileInfoUrl urlInfo)) retryLimits s = (Inr res, s')"
  shows "\<exists>listed url. getSampleFileInfo http_get urlInfo retryLimits s = (Inr (listed, url), s')
     \<and> ((data res = None \<or> (\<exists>info. data res = Some info \<and> tree info = None)) \<longrightarrow> listed = None)
     \<and> (\<forall>info nodes. data res = Some info \<and> tree info = Some nodes \<longrightarrow>
           listed = Some (map path (filter (\<lambda>node. startsWith (path node) (dir urlInfo @ ''/'')
                                               \<and> type node \<noteq> ''tree'') nodes)))
     \<and> ((data res = None \<or> (\<exists>info. data res = Some info \<and> sha info = None)) \<longrightarrow>
           url = ''https://raw.githubusercontent.com/'' @ owner urlInfo @ ''/''
                   @ repository urlInfo @ ''/undefined/'')
     \<and> (\<forall>info revision. data res = Some info \<and> sha info = Some revision \<longrightarrow>
           url = ''https://raw.githubusercontent.com/'' @ owner urlInfo @ ''/''
                   @ repository urlInfo @ ''/'' @ revision @ ''/'')"
  using assms
  by (cases "data res") (auto simp: getSampleFileInfo_def Let_def interpolate_def split: option.splits)

theorem getSampleFileInfo_result_witness:
  "getSampleFileInfo (serve None) sample_url 2 ()
     = (Inr (None, ''https://raw.githubusercontent.com/o/r/undefined/''), ())"
proof -
  have run: "sendRequestWithRetry (serve None (fileInfoUrl sample_url)) 2 ()
      = (Inr \<lparr>status = 200, data = None\<rparr>, ())"
    by (simp add: sendRequestWithRetry_def retry_loop_unfold serve_def)
  from getSampleFileInfo_result[of "serve None" sample_url 2 "()", OF run] show ?thesis
    by (auto simp: sample_url_def)
qed

text \<open>
  Claim C10 as stated fails for a body that lacks \<open>tree\<close> and has a \<open>sha\<close>: \<open>samplePaths\<close> is
  undefined, and the revision segment of \<open>fileUrlPrefix\<close> is that \<open>sha\<close>, not the text
  \<open>undefined\<close>.
\<close>

theorem getSampleFileInfo_sha_counterexample:
  "getSampleFileInfo (serve (Some \<lparr>tree = None, sha = Some ''abc''\<rparr>)) sample_url 2 ()
     = (Inr (None, ''https://raw.githubusercontent.com/o/r/abc/''), ())"
  by (simp add: getSampleFileInfo_def serve_def sample_url_def fileInfoUrl_def interpolate_def
      sendRequestWithRetry_def retry_loop_unfold)



























section \<open>Properties of buildFileTree\<close>

text \<open>
  The tree is built by the callbacks in the order in which their fetches complete. The
  invariant \<open>tree_ok\<close> says what the tree holds whatever that order is: one leaf for each
  sample path whose fetch has succeeded, at the end of the directories of its relative
  path, and no directory twice among the children of a node. It is kept as long as no file
  of the list stands where another path of the list needs a directory (\<open>clash_free\<close>).
\<close>

lemma file_paths_child:
  "c \<in> set cs \<Longrightarrow> p \<in> set (file_paths c) \<Longrightarrow> n # p \<in> set (file_paths (Node n (Some cs)))"
  by auto

lemma find_Some_mem: "find P xs = Some x \<Longrightarrow> x \<in> set xs \<and> P x"
  by (induction xs) (auto split: if_splits)

lemma not_walkable_file_prefix:
  "\<not> walkable segs t \<Longrightarrow>
     \<exists>k \<le> length (filter (\<lambda>s. s \<noteq> ''.'') segs).
        name t # take k (filter (\<lambda>s. s \<noteq> ''.'') segs) \<in> set (file_paths t)"
proof (induction segs arbitrary: t)
  case Nil
  then show ?case by (cases t) auto
next
  case (Cons seg segs)
  let ?segs' = "filter (\<lambda>s. s \<noteq> ''.'') segs"
  show ?case
  proof (cases "seg = ''.''")
    case True
    with Cons show ?thesis by simp
  next
    case False
    obtain n kids where t: "t = Node n kids" by (cases t)
    show ?thesis
    proof (cases kids)
      case None
      with t have "name t # take 0 (filter (\<lambda>s. s \<noteq> ''.'') (seg # segs)) \<in> set (file_paths t)"
        by simp
      then show ?thesis by blast
    next
      case (Some cs)
      with Cons.prems False t obtain child where child:
        "find (\<lambda>c. name c = seg) cs = Some child" "\<not> walkable segs child"
        by (auto split: option.splits)
      from find_Some_mem[OF child(1)] have mem: "child \<in> set cs" "name child = seg" by auto
      from Cons.IH[OF child(2)] obtain k where k: "k \<le> length ?segs'"
        "name child # take k ?segs' \<in> set (file_paths child)" by blast
      from file_paths_child[OF mem(1) k(2), of n] mem(2) t Some False
      have "name t # take (Suc k) (filter (\<lambda>s. s \<noteq> ''.'') (seg # segs)) \<in> set (file_paths t)"
        by simp
      moreover from k(1) False have "Suc k \<le> length (filter (\<lambda>s. s \<noteq> ''.'') (seg # segs))" by simp
      ultimately show ?thesis by blast
    qed
  qed
qed

lemma zip_snoc:
  "length ys < length xs \<Longrightarrow> zip xs (ys @ [y]) = zip xs ys @ [(xs ! length ys, y)]"
proof (induction ys arbitrary: xs)
  case Nil
  then show ?case by (cases xs) auto
next
  case (Cons a ys)
  then show ?case by (cases xs) auto
qed

lemma filter_map_update_same:
  assumes "i < length xs" "P y = P (xs ! i)" "f y = f (xs ! i)"
  shows "mset (map f (filter P (xs[i := y]))) = mset (map f (filter P xs))"
  using assms
proof (induction xs arbitrary: i)
  case Nil
  then show ?case by simp
next
  case (Cons x xs)
  then show ?case by (cases i) auto
qed

lemma filter_map_update_new:
  assumes "i < length xs" "P y" "\<not> P (xs ! i)"
  shows "mset (map f (filter P (xs[i := y]))) = add_mset (f y) (mset (map f (filter P xs)))"
  using assms
proof (induction xs arbitrary: i)
  case Nil
  then show ?case by simp
next
  case (Cons x xs)
  then show ?case by (cases i) auto
qed


lemma inserted_reacted: "inserted (Reacted out) = inserted (Settled out)"
  by (cases "Reacted out :: (download_state, ('a, 'b) download_error) task" rule: inserted.cases) auto

lemma file_steps_inserted:
  assumes "file_steps l ev d = (r, d')" "\<And>sp. l \<noteq> Fetching sp"
  shows "inserted (task_of r)"
proof (cases l)
  case (Fetching sp)
  with assms(2) show ?thesis by blast
next
  case (Ensuring fp bytes)
  with assms(1) show ?thesis
    by (cases ev) (auto simp: file_steps_def task_of_def split: option.splits)
next
  case (Writing fp bytes)
  with assms(1) show ?thesis
    by (cases ev) (auto simp: file_steps_def task_of_def split: option.splits)
qed

lemma zip_update_snd:
  "i < length xs \<Longrightarrow> zip xs (ys[i := y]) = (zip xs ys)[i := (xs ! i, y)]"
  using zip_update[of xs i "xs ! i" ys y] by simp

lemma tree_ok_same:
  assumes ok: "tree_ok cwd folder items ts st" and i: "i < length ts"
    and ins: "inserted t = inserted (ts ! i)"
    and fetching: "\<And>sp. t = Running (Fetching sp) \<Longrightarrow> sp = items ! i"
    and root: "fst st' = fst st"
  shows "tree_ok cwd folder items (ts[i := t]) st'"
proof -
  from ok have len: "length ts \<le> length items" by (simp add: tree_ok_def)
  with i have i': "i < length (zip items ts)" "i < length items" by simp_all
  have z: "zip items (ts[i := t]) = (zip items ts)[i := (items ! i, t)]"
    using i' by (simp add: zip_update_snd)
  have "mset (map (\<lambda>x. folder # tree_file cwd folder (fst x))
                  (filter (\<lambda>x. inserted (snd x)) (zip items (ts[i := t]))))
      = mset (map (\<lambda>x. folder # tree_file cwd folder (fst x))
                  (filter (\<lambda>x. inserted (snd x)) (zip items ts)))"
    unfolding z using i' i ins by (intro filter_map_update_same) simp_all
  moreover have "\<forall>j < length (ts[i := t]). \<forall>sp. ts[i := t] ! j = Running (Fetching sp) \<longrightarrow> sp = items ! j"
  proof (intro allI impI)
    fix j sp assume j: "j < length (ts[i := t])" "ts[i := t] ! j = Running (Fetching sp)"
    show "sp = items ! j"
    proof (cases "j = i")
      case True
      with j i fetching show ?thesis by simp
    next
      case False
      with j ok show ?thesis by (simp add: tree_ok_def)
    qed
  qed
  ultimately show ?thesis using ok root len by (simp add: tree_ok_def)
qed

lemma tree_ok_insert:
  assumes ok: "tree_ok cwd folder items ts (root, d)" and i: "i < length ts"
    and cf: "clash_free cwd folder items"
    and l: "ts ! i = Running (Fetching sp)"
  shows "tree_ok cwd folder items (ts[i := Running (Ensuring fp bytes)])
           (fileTreeAdd root (relative cwd (folder @ ''/'') sp) fp, d')"
proof -
  let ?rel = "relative cwd (folder @ ''/'') sp"
  let ?raw = "split_on (CHR ''/'') (dirname ?rel)"
  let ?f = "\<lambda>x. folder # tree_file cwd folder (fst x)"
  let ?ins = "filter (\<lambda>x. inserted (snd x)) (zip items ts)"
  from ok have len: "length ts \<le> length items" and nm: "name root = folder"
    and dd: "dirs_distinct root"
    and ms: "mset (file_paths root) = mset (map ?f ?ins)"
    by (simp_all add: tree_ok_def)
  from ok i l have sp: "sp = items ! i" by (simp add: tree_ok_def)
  from len i have i': "i < length (zip items ts)" "i < length items" by simp_all
  have segs: "filter (\<lambda>s. s \<noteq> ''.'') ?raw = tree_segments cwd folder sp"
    by (simp add: tree_segments_def)
  have w: "walkable ?raw root"
  proof (rule ccontr)
    assume "\<not> walkable ?raw root"
    from not_walkable_file_prefix[OF this] nm segs obtain k where
      k: "k \<le> length (tree_segments cwd folder sp)"
        "folder # take k (tree_segments cwd folder sp) \<in> set (file_paths root)" by auto
    from k(2) have "folder # take k (tree_segments cwd folder sp) \<in># mset (file_paths root)" by simp
    then have "folder # take k (tree_segments cwd folder sp) \<in> set (map ?f ?ins)"
      unfolding ms by simp
    then obtain x where x: "x \<in> set (zip items ts)"
      "take k (tree_segments cwd folder sp) = tree_file cwd folder (fst x)" by auto
    have a: "fst x \<in> set items"
      using x(1) set_zip_leftD[of "fst x" "snd x" items ts] by simp
    from x(2) k(1) have "length (tree_file cwd folder (fst x)) = k"
      by (metis length_take min.absorb2)
    with x(2) have "take (length (tree_file cwd folder (fst x))) (tree_segments cwd folder sp)
        = tree_file cwd folder (fst x)" by simp
    moreover from sp i' have "sp \<in> set items" by simp
    ultimately show False using cf a unfolding clash_free_def by blast
  qed
  have paths: "mset (file_paths (fileTreeAdd root ?rel fp))
      = add_mset (folder # tree_file cwd folder sp) (mset (file_paths root))"
    using file_paths_insert_at[OF w, of "basename ?rel"] nm
    by (simp add: fileTreeAdd_def tree_file_def tree_segments_def)
  have z: "zip items (ts[i := Running (Ensuring fp bytes)])
      = (zip items ts)[i := (items ! i, Running (Ensuring fp bytes))]"
    using i' by (simp add: zip_update_snd)
  have "mset (map ?f (filter (\<lambda>x. inserted (snd x)) (zip items (ts[i := Running (Ensuring fp bytes)]))))
      = add_mset (?f (items ! i, Running (Ensuring fp bytes))) (mset (map ?f ?ins))"
    unfolding z
    using filter_map_update_new[where f = ?f and P = "\<lambda>x. inserted (snd x)" and xs = "zip items ts"
        and i = i and y = "(items ! i, Running (Ensuring fp bytes))"] i' i l
    by simp
  with paths ms sp have ms': "mset (file_paths (fileTreeAdd root ?rel fp))
      = mset (map ?f (filter (\<lambda>x. inserted (snd x)) (zip items (ts[i := Running (Ensuring fp bytes)]))))"
    by simp
  have nm': "name (fileTreeAdd root ?rel fp) = folder" using nm by (simp add: fileTreeAdd_def)
  have dd': "dirs_distinct (fileTreeAdd root ?rel fp)"
    using dd by (simp add: fileTreeAdd_def dirs_distinct_insert_at)
  have "\<forall>j < length (ts[i := Running (Ensuring fp bytes)]). \<forall>sp'.
      ts[i := Running (Ensuring fp bytes)] ! j = Running (Fetching sp') \<longrightarrow> sp' = items ! j"
  proof (intro allI impI)
    fix j sp' assume j: "j < length (ts[i := Running (Ensuring fp bytes)])"
      "ts[i := Running (Ensuring fp bytes)] ! j = Running (Fetching sp')"
    then have "j \<noteq> i" using i by auto
    with j ok show "sp' = items ! j" by (simp add: tree_ok_def)
  qed
  with ms' nm' dd' len show ?thesis by (simp add: tree_ok_def)
qed


lemma tree_ok_invoked:
  assumes ok: "tree_ok cwd folder items ts st" and len: "length ts < length items"
  shows "tree_ok cwd folder items (ts @ [Running (Fetching (items ! length ts))]) st"
proof -
  let ?t = "Running (Fetching (items ! length ts)) :: (download_state, ('a, 'b) download_error) task"
  have z: "zip items (ts @ [?t]) = zip items ts @ [(items ! length ts, ?t)]"
    using len by (rule zip_snoc)
  have f: "filter (\<lambda>x. inserted (snd x)) (zip items (ts @ [?t]))
      = filter (\<lambda>x. inserted (snd x)) (zip items ts)"
    unfolding z by simp
  have fetching: "\<forall>j < length (ts @ [?t]). \<forall>sp. (ts @ [?t]) ! j = Running (Fetching sp) \<longrightarrow> sp = items ! j"
  proof (intro allI impI)
    fix j sp assume j: "j < length (ts @ [?t])" "(ts @ [?t]) ! j = Running (Fetching sp)"
    then consider "j < length ts" | "j = length ts" by fastforce
    then show "sp = items ! j"
    proof cases
      case 1
      with j ok show ?thesis by (simp add: tree_ok_def nth_append)
    next
      case 2
      with j show ?thesis by simp
    qed
  qed
  from ok have "name (fst st) = folder" "dirs_distinct (fst st)"
    "mset (file_paths (fst st))
       = mset (map (\<lambda>x. folder # tree_file cwd folder (fst x))
                (filter (\<lambda>x. inserted (snd x)) (zip items ts)))"
    by (simp_all add: tree_ok_def)
  moreover have "length (ts @ [?t]) \<le> length items" using len by simp
  ultimately show ?thesis
    unfolding tree_ok_def f using fetching by blast
qed

lemma tree_ok_run:
  fixes schedule :: "('e, 'f) download_event event list"
  assumes cf: "clash_free cwd relativeFolderName samplePaths"
  shows "tree_ok cwd relativeFolderName samplePaths
     (tasks (buildFileTree_run cwd fileUrlPrefix samplePaths dstPath relativeFolderName retryLimits
               concurrencyLimits schedule d0))
     (shared (buildFileTree_run cwd fileUrlPrefix samplePaths dstPath relativeFolderName retryLimits
               concurrencyLimits schedule d0))"
proof -
  let ?cb = "treeCallback cwd fileUrlPrefix dstPath relativeFolderName retryLimits
      :: (string, download_state, ('e, 'f) download_event, ('e, 'f) download_error,
          ChatResponseFileTree \<times> disk) callback"
  let ?P = "tree_ok cwd relativeFolderName samplePaths
      :: (download_state, ('e, 'f) download_error) task list \<Rightarrow> ChatResponseFileTree \<times> disk \<Rightarrow> bool"
  let ?st = "(Node relativeFolderName (Some []), d0)"
  have "?P (tasks (runWithLimitedConcurrency samplePaths ?cb concurrencyLimits schedule ?st))
     (shared (runWithLimitedConcurrency samplePaths ?cb concurrencyLimits schedule ?st))"
  proof (rule run_invariant[where P = ?P])
    show "?P [] ?st" by (simp add: tree_ok_def)
  next
    fix ts :: "(download_state, ('e, 'f) download_error) task list"
      and s :: "ChatResponseFileTree \<times> disk" and r s'
    assume ok: "?P ts s"
      and len: "length ts < length samplePaths"
      and inv: "invoke ?cb (samplePaths ! length ts) s = (r, s')"
    from inv have r: "task_of r = Running (Fetching (samplePaths ! length ts))" "s' = s"
      by (auto simp: treeCallback_def task_of_def)
    from tree_ok_invoked[OF ok len] show "?P (ts @ [task_of r]) s'"
      unfolding r .
  next
    fix ts :: "(download_state, ('e, 'f) download_error) task list"
      and s :: "ChatResponseFileTree \<times> disk"
      and i l and ev :: "('e, 'f) download_event" and r s'
    assume ok: "?P ts s"
      and i: "i < length ts" and l: "ts ! i = Running l" and res: "resume ?cb l ev s = (r, s')"
    obtain root d where s: "s = (root, d)" by (cases s)
    show "?P (ts[i := task_of r]) s'"
    proof (cases l)
      case (Fetching sp)
      from ok i l Fetching have sp: "sp = samplePaths ! i" by (simp add: tree_ok_def)
      show ?thesis
      proof (cases ev)
        case (FileOp x)
        with res s Fetching have "task_of r = ts ! i" "s' = s"
          using l by (auto simp: treeCallback_def task_of_def)
        with ok show ?thesis by simp
      next
        case (Responses http)
        show ?thesis
        proof (cases "fst (sendRequestWithRetry (scripted (http (fileUrlPrefix @ sp))) retryLimits 0)")
          case (Inl err)
          with res s Fetching Responses have "task_of r = Settled (Inl (RequestFailed err))" "fst s' = fst s"
            by (auto simp: treeCallback_def task_of_def)
          with tree_ok_same[OF ok i, of "task_of r" s'] l Fetching show ?thesis by simp
        next
          case (Inr resp)
          with res s Fetching Responses
          have "task_of r = Running (Ensuring (join dstPath sp) (data resp))"
            "s' = (fileTreeAdd root (relative cwd (relativeFolderName @ ''/'') sp) (join dstPath sp), d)"
            by (auto simp: treeCallback_def task_of_def Let_def)
          with tree_ok_insert[OF ok[unfolded s] i cf l[unfolded Fetching]] show ?thesis by simp
        qed
      qed
    next
      case (Ensuring fp bytes)
      with res s have fs: "file_steps l ev d = (r, snd s')" and root: "fst s' = fst s"
        by (auto simp: treeCallback_def split: download_event.splits prod.splits)
      from file_steps_inserted[OF fs] Ensuring have ins: "inserted (task_of r)" by simp
      from fs Ensuring have nf: "\<And>sp. task_of r \<noteq> Running (Fetching sp)"
        by (cases ev) (auto simp: file_steps_def task_of_def split: option.splits)
      from tree_ok_same[OF ok i, of "task_of r" s'] ins nf root l Ensuring show ?thesis by simp
    next
      case (Writing fp bytes)
      with res s have fs: "file_steps l ev d = (r, snd s')" and root: "fst s' = fst s"
        by (auto simp: treeCallback_def split: download_event.splits prod.splits)
      from file_steps_inserted[OF fs] Writing have ins: "inserted (task_of r)" by simp
      from fs Writing have nf: "\<And>sp. task_of r \<noteq> Running (Fetching sp)"
        by (cases ev) (auto simp: file_steps_def task_of_def split: option.splits)
      from tree_ok_same[OF ok i, of "task_of r" s'] ins nf root l Writing show ?thesis by simp
    qed
  next
    fix ts :: "(download_state, ('e, 'f) download_error) task list"
      and s :: "ChatResponseFileTree \<times> disk" and i out
    assume ok: "?P ts s" and i: "i < length ts" and l: "ts ! i = Settled out"
    from tree_ok_same[OF ok i, of "Reacted out" s] l show "?P (ts[i := Reacted out]) s"
      by (simp add: inserted_reacted)
  qed
  then show ?thesis by (simp add: buildFileTree_run_def)
qed

lemma root_is_dir_run:
  fixes schedule :: "('e, 'f) download_event event list"
  shows "is_dir (fst (shared (buildFileTree_run cwd fileUrlPrefix samplePaths dstPath relativeFolderName
      retryLimits concurrencyLimits schedule d0)))"
proof -
  let ?cb = "treeCallback cwd fileUrlPrefix dstPath relativeFolderName retryLimits
      :: (string, download_state, ('e, 'f) download_event, ('e, 'f) download_error,
          ChatResponseFileTree \<times> disk) callback"
  let ?P = "(\<lambda>ts st. is_dir (fst st))
      :: (download_state, ('e, 'f) download_error) task list \<Rightarrow> ChatResponseFileTree \<times> disk \<Rightarrow> bool"
  let ?st = "(Node relativeFolderName (Some []), d0)"
  have "?P (tasks (runWithLimitedConcurrency samplePaths ?cb concurrencyLimits schedule ?st))
     (shared (runWithLimitedConcurrency samplePaths ?cb concurrencyLimits schedule ?st))"
  proof (rule run_invariant[where P = ?P])
    show "?P [] ?st" by (simp add: is_dir_def)
  next
    fix ts :: "(download_state, ('e, 'f) download_error) task list"
      and s :: "ChatResponseFileTree \<times> disk" and r s'
    assume "?P ts s" and "invoke ?cb (samplePaths ! length ts) s = (r, s')"
    then show "?P (ts @ [task_of r]) s'" by (auto simp: treeCallback_def)
  next
    fix ts :: "(download_state, ('e, 'f) download_error) task list"
      and s :: "ChatResponseFileTree \<times> disk"
      and i l and ev :: "('e, 'f) download_event" and r s'
    assume ok: "?P ts s" and res: "resume ?cb l ev s = (r, s')"
    obtain root d where s: "s = (root, d)" by (cases s)
    from res s ok have "is_dir (fst s')"
      by (auto simp: treeCallback_def Let_def fileTreeAdd_def
            split: download_state.splits download_event.splits sum.splits prod.splits)
    then show "?P (ts[i := task_of r]) s'" .
  next
    fix ts :: "(download_state, ('e, 'f) download_error) task list"
      and s :: "ChatResponseFileTree \<times> disk"
    assume "?P ts s"
    then show "?P ts s" .
  qed
  then show ?thesis by (simp add: buildFileTree_run_def)
qed

lemma filter_zip_all:
  assumes "length ts = length xs" "\<forall>i < length ts. P (ts ! i)"
  shows "filter (\<lambda>x. P (snd x)) (zip xs ts) = zip xs ts"
proof -
  have "\<forall>x \<in> set (zip xs ts). P (snd x)"
  proof
    fix x assume "x \<in> set (zip xs ts)"
    then have "snd x \<in> set ts" using set_zip_rightD[of "fst x" "snd x" xs ts] by simp
    with assms(2) show "P (snd x)" by (auto simp: in_set_conv_nth)
  qed
  then show ?thesis by simp
qed

text \<open>
  Claim C4, as amended. When no file of the list stands where another path of the list
  needs a directory, and \<open>buildFileTree\<close> has returned the children \<open>cs\<close> of the root, then
  whatever the schedule was, and so whatever the order in which the fetches completed, the
  files of the tree are, as a multiset, the relative paths of the sample paths, each once,
  and no node has two directories of the same name among its children. The order of the
  children of a node is not determined: it is the order of first insertion.
\<close>

theorem buildFileTree_order_independent:
  fixes schedule :: "('e, 'f) download_event event list"
  assumes cf: "clash_free cwd relativeFolderName samplePaths"
    and run: "buildFileTree cwd fileUrlPrefix samplePaths dstPath relativeFolderName retryLimits
        concurrencyLimits schedule d0 = Some (Inr cs)"
  shows "mset (file_paths (Node relativeFolderName (Some cs)))
           = mset (map (\<lambda>samplePath. relativeFolderName # tree_file cwd relativeFolderName samplePath)
                    samplePaths)
         \<and> dirs_distinct (Node relativeFolderName (Some cs))"
proof -
  let ?w = "buildFileTree_run cwd fileUrlPrefix samplePaths dstPath relativeFolderName retryLimits
      concurrencyLimits schedule d0"
  from run have ret: "control ?w = Returned"
    and cs: "cs = (case children (fst (shared ?w)) of None \<Rightarrow> [] | Some cs \<Rightarrow> cs)"
    by (auto simp: buildFileTree_def Let_def split: control.splits)
  have ok: "tree_ok cwd relativeFolderName samplePaths (tasks ?w) (shared ?w)"
    using cf by (rule tree_ok_run)
  have "is_dir (fst (shared ?w))" by (rule root_is_dir_run)
  with cs ok have root: "fst (shared ?w) = Node relativeFolderName (Some cs)"
    by (cases "fst (shared ?w)") (auto simp: is_dir_def tree_ok_def)
  have inv: "limiter_inv samplePaths concurrencyLimits ?w"
    unfolding buildFileTree_run_def by (rule limiter_inv_run)
  from returned_all_fulfilled[OF inv ret]
  have len: "length (tasks ?w) = length samplePaths"
    and all: "\<forall>i < length (tasks ?w). inserted (tasks ?w ! i)"
    by simp_all
  have f: "filter (\<lambda>x. inserted (snd x)) (zip samplePaths (tasks ?w)) = zip samplePaths (tasks ?w)"
    using len all by (rule filter_zip_all)
  have m: "map (\<lambda>x. relativeFolderName # tree_file cwd relativeFolderName (fst x)) (zip samplePaths (tasks ?w))
      = map (\<lambda>samplePath. relativeFolderName # tree_file cwd relativeFolderName samplePath) samplePaths"
  proof -
    have "map (\<lambda>x. relativeFolderName # tree_file cwd relativeFolderName (fst x)) (zip samplePaths (tasks ?w))
      = map (\<lambda>samplePath. relativeFolderName # tree_file cwd relativeFolderName samplePath)
          (map fst (zip samplePaths (tasks ?w)))"
      by (simp add: comp_def)
    also have "map fst (zip samplePaths (tasks ?w)) = samplePaths" using len by simp
    finally show ?thesis .
  qed
  from ok have "mset (file_paths (fst (shared ?w)))
      = mset (map (\<lambda>x. relativeFolderName # tree_file cwd relativeFolderName (fst x))
               (filter (\<lambda>x. inserted (snd x)) (zip samplePaths (tasks ?w))))"
    and "dirs_distinct (fst (shared ?w))"
    by (simp_all add: tree_ok_def)
  then show ?thesis unfolding f m root by simp
qed

theorem buildFileTree_order_independent_witness:
  "clash_free ''/home/u'' ''.'' [''a/b.txt'', ''a/c.txt'', ''d.txt'']
   \<and> buildFileTree ''/home/u'' ''https://x/'' [''a/b.txt'', ''a/c.txt'', ''d.txt''] ''/tmp/dst'' ''.'' 2 20
      [Advance, Advance, Advance, Advance, Deliver 2 fetched, Deliver 1 fetched, Deliver 0 fetched,
       Deliver 0 file_done, Deliver 0 file_done, Deliver 1 file_done, Deliver 1 file_done,
       Deliver 2 file_done, Deliver 2 file_done, React 0, React 1, React 2, Advance] empty_disk
       = Some (Inr [Node ''d.txt'' None, Node ''a'' (Some [Node ''c.txt'' None, Node ''b.txt'' None])])
   \<and> mset (file_paths (Node ''.'' (Some [Node ''d.txt'' None, Node ''a'' (Some [Node ''c.txt'' None, Node ''b.txt'' None])])))
       = mset [[''.'', ''a'', ''b.txt''], [''.'', ''a'', ''c.txt''], [''.'', ''d.txt'']]
   \<and> dirs_distinct (Node ''.'' (Some [Node ''d.txt'' None, Node ''a'' (Some [Node ''c.txt'' None, Node ''b.txt'' None])]))"
proof -
  have cf: "clash_free ''/home/u'' ''.'' [''a/b.txt'', ''a/c.txt'', ''d.txt'']"
    by code_simp
  have run: "buildFileTree ''/home/u'' ''https://x/'' [''a/b.txt'', ''a/c.txt'', ''d.txt''] ''/tmp/dst'' ''.'' 2 20
      [Advance, Advance, Advance, Advance, Deliver 2 fetched, Deliver 1 fetched, Deliver 0 fetched,
       Deliver 0 file_done, Deliver 0 file_done, Deliver 1 file_done, Deliver 1 file_done,
       Deliver 2 file_done, Deliver 2 file_done, React 0, React 1, React 2, Advance] empty_disk
       = Some (Inr [Node ''d.txt'' None, Node ''a'' (Some [Node ''c.txt'' None, Node ''b.txt'' None])])"
    by code_simp
  have m: "map (\<lambda>samplePath. ''.'' # tree_file ''/home/u'' ''.'' samplePath) [''a/b.txt'', ''a/c.txt'', ''d.txt'']
      = [[''.'', ''a'', ''b.txt''], [''.'', ''a'', ''c.txt''], [''.'', ''d.txt'']]"
    by code_simp
  note oi = buildFileTree_order_independent[OF cf run, unfolded m]
  with cf run show ?thesis by (intro conjI) simp_all
qed

text \<open>
  Claim C4 as stated fails in the order of the children. With the fetches of
  \<open>a/b.txt\<close>, \<open>a/c.txt\<close>, \<open>d.txt\<close> completing in the order of the list the children of the
  root are \<open>a\<close>, with children \<open>b.txt\<close>, \<open>c.txt\<close>, and \<open>d.txt\<close>; with the fetches completing in
  the reverse order they are \<open>d.txt\<close> and \<open>a\<close>, with children \<open>c.txt\<close>, \<open>b.txt\<close>.
\<close>

theorem buildFileTree_completion_order_counterexample:
  "buildFileTree ''/home/u'' ''https://x/'' [''a/b.txt'', ''a/c.txt'', ''d.txt''] ''/tmp/dst'' ''.'' 2 20
      [Advance, Advance, Advance, Advance, Deliver 0 fetched, Deliver 1 fetched, Deliver 2 fetched,
       Deliver 0 file_done, Deliver 0 file_done, Deliver 1 file_done, Deliver 1 file_done,
       Deliver 2 file_done, Deliver 2 file_done, React 0, React 1, React 2, Advance] empty_disk
     = Some (Inr [Node ''a'' (Some [Node ''b.txt'' None, Node ''c.txt'' None]), Node ''d.txt'' None])
   \<and> buildFileTree ''/home/u'' ''https://x/'' [''a/b.txt'', ''a/c.txt'', ''d.txt''] ''/tmp/dst'' ''.'' 2 20
      [Advance, Advance, Advance, Advance, Deliver 2 fetched, Deliver 1 fetched, Deliver 0 fetched,
       Deliver 0 file_done, Deliver 0 file_done, Deliver 1 file_done, Deliver 1 file_done,
       Deliver 2 file_done, Deliver 2 file_done, React 0, React 1, React 2, Advance] empty_disk
     = Some (Inr [Node ''d.txt'' None, Node ''a'' (Some [Node ''c.txt'' None, Node ''b.txt'' None])])
   \<and> buildFileTree ''/home/u'' ''https://x/'' [''a/b.txt'', ''a/c.txt'', ''d.txt''] ''/tmp/dst'' ''.'' 2 20
      [Advance, Advance, Advance, Advance, Deliver 2 fetched, Deliver 1 fetched, Deliver 0 fetched,
       Deliver 0 file_done, Deliver 0 file_done, Deliver 1 file_done, Deliver 1 file_done,
       Deliver 2 file_done, Deliver 2 file_done, React 0, React 1, React 2, Advance] empty_disk
     \<noteq> Some (Inr [Node ''a'' (Some [Node ''b.txt'' None, Node ''c.txt'' None]), Node ''d.txt'' None])"
  by code_simp

end
